theory Spec2Isabelle
  imports Main
begin

section \<open>Constants and data of the poker simulation\<close>

text \<open>
  The macros of \<^verbatim>\<open>doxy-poker.c\<close>. Counters and array sizes are natural numbers;
  the fields of a card are C ints, because the simulator stores the sentinel
  \<open>-1\<close> in the rank of a withdrawn card. No value computed here comes near the
  range of a 32-bit int (the largest is \<open>wins * 100\<close>, at most 1000000), so the C
  ints are modelled by unbounded integers.
\<close>

definition NUM_CARDS :: nat where "NUM_CARDS = 52"
definition NUM_RANKS :: nat where "NUM_RANKS = 13"
definition NUM_SUITS :: nat where "NUM_SUITS = 4"
definition HAND_SIZE :: nat where "HAND_SIZE = 2"
definition MONTE_CARLO_SIMULATIONS :: nat where "MONTE_CARLO_SIMULATIONS = 10000"

record Card =
  rank :: int
  suit :: int

record HandEvaluation =
  combination_level :: int
  highest_card :: int
  second_highest_card :: int

text \<open>
  C arrays are lists. A read outside the array is undefined behaviour in C; the model
  makes it an error value that names the array and the index. The integer division at
  the end of the simulation gets an error of its own.
\<close>

datatype array_name = HandArray | CommunityArray | DeckArray | RankCount | SuitCount

datatype error = OutOfBounds array_name int | DivisionByZero

definition and_then :: "error + 'a \<Rightarrow> ('a \<Rightarrow> error + 'b) \<Rightarrow> error + 'b" where
  "and_then m f = (case m of Inl e \<Rightarrow> Inl e | Inr x \<Rightarrow> f x)"

definition read_at :: "array_name \<Rightarrow> 'a list \<Rightarrow> nat \<Rightarrow> error + 'a" where
  "read_at a xs i = (if i < length xs then Inr (xs ! i) else Inl (OutOfBounds a (int i)))"

text \<open>A loop body either returns from the enclosing function or goes on with its state.\<close>

datatype ('r, 's) flow = Return 'r | Continue 's

section \<open>The hand evaluator\<close>

text \<open>
  \<^verbatim>\<open>compare_cards\<close> orders by rank, highest first. The C library's \<^verbatim>\<open>qsort\<close> is
  modelled by an insertion sort with the same comparator: the order it leaves among
  cards of equal rank is not used by the evaluator, which reads only the rank of the
  first card and the occurrence counts.
\<close>

definition compare_cards :: "Card \<Rightarrow> Card \<Rightarrow> int" where
  "compare_cards a b = rank b - rank a"

fun insert_sorted :: "('a \<Rightarrow> 'a \<Rightarrow> int) \<Rightarrow> 'a \<Rightarrow> 'a list \<Rightarrow> 'a list" where
  "insert_sorted cmp x [] = [x]"
| "insert_sorted cmp x (y # ys) =
     (if cmp x y \<le> 0 then x # y # ys else y # insert_sorted cmp x ys)"

definition qsort :: "('a \<Rightarrow> 'a \<Rightarrow> int) \<Rightarrow> 'a list \<Rightarrow> 'a list" where
  "qsort cmp xs = foldr (insert_sorted cmp) xs []"

text \<open>
  The counting loop: \<^verbatim>\<open>rank_count[all_cards[i].rank]++; suit_count[all_cards[i].suit]++\<close>.
  A rank outside \<open>0..12\<close> or a suit outside \<open>0..3\<close> indexes outside the arrays.
\<close>

fun count_cards :: "Card list \<Rightarrow> int list \<times> int list \<Rightarrow> error + (int list \<times> int list)" where
  "count_cards [] (rank_count, suit_count) = Inr (rank_count, suit_count)"
| "count_cards (c # cs) (rank_count, suit_count) =
     (if \<not> (0 \<le> rank c \<and> rank c < int (length rank_count))
        then Inl (OutOfBounds RankCount (rank c))
      else if \<not> (0 \<le> suit c \<and> suit c < int (length suit_count))
        then Inl (OutOfBounds SuitCount (suit c))
      else count_cards cs
             (rank_count[nat (rank c) := rank_count ! nat (rank c) + 1],
              suit_count[nat (suit c) := suit_count ! nat (suit c) + 1]))"

text \<open>The flush loop returns the initial evaluation with level 6 at the first suit held 5 times.\<close>

fun flush_scan :: "int list \<Rightarrow> nat list \<Rightarrow> HandEvaluation \<Rightarrow> (HandEvaluation, unit) flow" where
  "flush_scan suit_count [] eval = Continue ()"
| "flush_scan suit_count (i # is) eval =
     (if suit_count ! i \<ge> 5 then Return (eval\<lparr>combination_level := 6\<rparr>)
      else flush_scan suit_count is eval)"

text \<open>
  The loop over the ranks that looks for four, three and two of a kind. Its state is
  \<open>(has_three, has_pair, eval)\<close>.
\<close>

fun kind_scan ::
  "int list \<Rightarrow> nat list \<Rightarrow> bool \<times> bool \<times> HandEvaluation
     \<Rightarrow> (HandEvaluation, bool \<times> bool \<times> HandEvaluation) flow" where
  "kind_scan rank_count [] st = Continue st"
| "kind_scan rank_count (i # is) (has_three, has_pair, eval) =
     (if rank_count ! i = 4
        then Return (eval\<lparr>combination_level := 8, highest_card := int i\<rparr>)
      else if rank_count ! i = 3
        then kind_scan rank_count is (True, has_pair, eval\<lparr>highest_card := int i\<rparr>)
      else if rank_count ! i = 2
        then kind_scan rank_count is
               (has_three, True,
                if second_highest_card eval = -1 \<or> int i > second_highest_card eval
                then eval\<lparr>second_highest_card := int i\<rparr> else eval)
      else kind_scan rank_count is (has_three, has_pair, eval))"

text \<open>The straight loop runs from the highest rank down; its state is \<open>consecutive\<close>.\<close>

fun straight_scan ::
  "int list \<Rightarrow> nat list \<Rightarrow> int \<Rightarrow> HandEvaluation \<Rightarrow> (HandEvaluation, int) flow" where
  "straight_scan rank_count [] consecutive eval = Continue consecutive"
| "straight_scan rank_count (i # is) consecutive eval =
     (if rank_count ! i > 0
        then (if consecutive + 1 \<ge> 5
                then Return (eval\<lparr>combination_level := 4, highest_card := int i + 4\<rparr>)
              else straight_scan rank_count is (consecutive + 1) eval)
      else straight_scan rank_count is 0 eval)"

text \<open>The pair loop; its state is \<open>(pairs, eval)\<close>.\<close>

fun pair_scan :: "int list \<Rightarrow> nat list \<Rightarrow> int \<times> HandEvaluation \<Rightarrow> int \<times> HandEvaluation" where
  "pair_scan rank_count [] st = st"
| "pair_scan rank_count (i # is) (pairs, eval) =
     (if rank_count ! i = 2
        then pair_scan rank_count is
               (pairs + 1,
                if highest_card eval < int i
                  then eval\<lparr>second_highest_card := highest_card eval, highest_card := int i\<rparr>
                else if second_highest_card eval < int i
                  then eval\<lparr>second_highest_card := int i\<rparr>
                else eval)
      else pair_scan rank_count is (pairs, eval))"

text \<open>The body of \<^verbatim>\<open>evaluate_hand\<close> after the counts are built.\<close>

definition classify :: "int list \<Rightarrow> int list \<Rightarrow> HandEvaluation \<Rightarrow> HandEvaluation" where
  "classify rank_count suit_count eval =
     (case flush_scan suit_count [0..<NUM_SUITS] eval of
        Return e \<Rightarrow> e
      | Continue _ \<Rightarrow>
     (case kind_scan rank_count [0..<NUM_RANKS] (False, False, eval) of
        Return e \<Rightarrow> e
      | Continue (has_three, has_pair, eval1) \<Rightarrow>
          if has_three \<and> has_pair then eval1\<lparr>combination_level := 7\<rparr>
          else if has_three then eval1\<lparr>combination_level := 3\<rparr>
          else
     (case straight_scan rank_count (rev [0..<NUM_RANKS]) 0 eval1 of
        Return e \<Rightarrow> e
      | Continue _ \<Rightarrow>
     (case pair_scan rank_count [0..<NUM_RANKS] (0, eval1) of
        (pairs, eval2) \<Rightarrow>
          if pairs \<ge> 2 then eval2\<lparr>combination_level := 2\<rparr>
          else if pairs = 1 then eval2\<lparr>combination_level := 1\<rparr>
          else eval2\<lparr>combination_level := 0\<rparr>))))"

text \<open>
  \<^verbatim>\<open>evaluate_hand(hand, community_cards, community_size)\<close>: the community array is the
  list of its \<open>community_size\<close> cards. The hand is read at the indices 0 and 1.
\<close>

definition evaluate_hand :: "Card list \<Rightarrow> Card list \<Rightarrow> error + HandEvaluation" where
  "evaluate_hand hand community_cards =
     and_then (read_at HandArray hand 0) (\<lambda>h0.
     and_then (read_at HandArray hand 1) (\<lambda>h1.
       let all_cards = qsort compare_cards (h0 # h1 # community_cards) in
       and_then (count_cards all_cards (replicate NUM_RANKS 0, replicate NUM_SUITS 0))
         (\<lambda>(rank_count, suit_count).
            Inr (classify rank_count suit_count
                   \<lparr>combination_level = 0, highest_card = rank (all_cards ! 0),
                    second_highest_card = -1\<rparr>))))"

section \<open>Comparing hands\<close>

text \<open>
  The positional fallback of \<^verbatim>\<open>is_hand_better\<close>:
  \<^verbatim>\<open>for (int i = HAND_SIZE + community_size - 1; i >= 0; i--)\<close>. The last argument is
  \<open>i + 1\<close>, the number of iterations left. Each iteration reads \<^verbatim>\<open>community_cards[i]\<close>
  first, then \<^verbatim>\<open>hand1[i]\<close> and \<^verbatim>\<open>hand2[i]\<close>. Leaving the loop falls through to the
  final \<^verbatim>\<open>return false\<close>.
\<close>

fun positional_fallback :: "Card list \<Rightarrow> Card list \<Rightarrow> Card list \<Rightarrow> nat \<Rightarrow> error + bool" where
  "positional_fallback hand1 hand2 community_cards 0 = Inr False"
| "positional_fallback hand1 hand2 community_cards (Suc i) =
     and_then (read_at CommunityArray community_cards i) (\<lambda>cc.
       if rank cc = -1 then positional_fallback hand1 hand2 community_cards i
       else
         and_then (read_at HandArray hand1 i) (\<lambda>a.
         and_then (read_at HandArray hand2 i) (\<lambda>b.
           if rank a > rank b then Inr True
           else if rank a < rank b then Inr False
           else positional_fallback hand1 hand2 community_cards i)))"

definition is_hand_better :: "Card list \<Rightarrow> Card list \<Rightarrow> Card list \<Rightarrow> error + bool" where
  "is_hand_better hand1 hand2 community_cards =
     and_then (evaluate_hand hand1 community_cards) (\<lambda>eval1.
     and_then (evaluate_hand hand2 community_cards) (\<lambda>eval2.
       if combination_level eval1 > combination_level eval2 then Inr True
       else if combination_level eval1 < combination_level eval2 then Inr False
       else if highest_card eval1 > highest_card eval2 then Inr True
       else if highest_card eval1 < highest_card eval2 then Inr False
       else if second_highest_card eval1 \<noteq> -1 \<and> second_highest_card eval2 \<noteq> -1 then
         (if second_highest_card eval1 > second_highest_card eval2 then Inr True
          else if second_highest_card eval1 < second_highest_card eval2 then Inr False
          else Inr False)
       else if second_highest_card eval1 \<noteq> -1 then Inr True
       else if second_highest_card eval2 \<noteq> -1 then Inr False
       else positional_fallback hand1 hand2 community_cards
              (HAND_SIZE + length community_cards)))"

text \<open>
  The loop of \<^verbatim>\<open>find_winning_opponent\<close> over the opponents, from index \<open>i\<close> on; its
  state is \<open>(winning_opponent_index, player_wins)\<close>.
\<close>

fun opponent_scan ::
  "HandEvaluation \<Rightarrow> Card list list \<Rightarrow> Card list \<Rightarrow> nat \<Rightarrow> int \<times> bool \<Rightarrow> error + (int \<times> bool)" where
  "opponent_scan player_eval [] community_cards i st = Inr st"
| "opponent_scan player_eval (h # hs) community_cards i (winning_opponent_index, player_wins) =
     and_then (evaluate_hand h community_cards) (\<lambda>opponent_eval.
       opponent_scan player_eval hs community_cards (i + 1)
         (if combination_level opponent_eval > combination_level player_eval
            then (int i, False)
          else if combination_level opponent_eval = combination_level player_eval
            then (if highest_card opponent_eval > highest_card player_eval
                    then (int i, False)
                  else if highest_card opponent_eval = highest_card player_eval
                          \<and> second_highest_card opponent_eval > second_highest_card player_eval
                    then (int i, False)
                  else (winning_opponent_index, player_wins))
          else (winning_opponent_index, player_wins)))"

definition find_winning_opponent :: "Card list \<Rightarrow> Card list list \<Rightarrow> Card list \<Rightarrow> error + int" where
  "find_winning_opponent player_hand opponent_hands community_cards =
     and_then (evaluate_hand player_hand community_cards) (\<lambda>player_eval.
     and_then (opponent_scan player_eval opponent_hands community_cards 0 (-1, True))
       (\<lambda>(winning_opponent_index, player_wins).
          Inr (if player_wins then -1 else winning_opponent_index)))"

section \<open>The deck\<close>

definition initialize_deck :: "Card list" where
  "initialize_deck =
     concat (map (\<lambda>i. map (\<lambda>j. \<lparr>rank = int i, suit = int j\<rparr>) [0..<NUM_SUITS]) [0..<NUM_RANKS])"

text \<open>
  The random source is the sequence of values that successive calls of \<^verbatim>\<open>rand()\<close>
  return (each at least 0, as the C standard says), with the number of calls made so
  far. \<^verbatim>\<open>shuffle_deck\<close> runs \<open>i\<close> from 51 down to 1 and swaps \<^verbatim>\<open>deck[i]\<close> with
  \<^verbatim>\<open>deck[rand() % (i + 1)]\<close>.
\<close>

fun shuffle_loop :: "(nat \<Rightarrow> nat) \<Rightarrow> nat \<Rightarrow> nat \<Rightarrow> Card list \<Rightarrow> Card list \<times> nat" where
  "shuffle_loop rand calls 0 deck = (deck, calls)"
| "shuffle_loop rand calls (Suc k) deck =
     (let i = Suc k; j = rand calls mod (i + 1)
      in shuffle_loop rand (calls + 1) k (deck[i := deck ! j, j := deck ! i]))"

definition shuffle_deck :: "(nat \<Rightarrow> nat) \<Rightarrow> nat \<Rightarrow> Card list \<Rightarrow> Card list \<times> nat" where
  "shuffle_deck rand calls deck = shuffle_loop rand calls (NUM_CARDS - 1) deck"

section \<open>The Monte Carlo simulation\<close>

text \<open>
  \<^verbatim>\<open>deck[c.rank * NUM_SUITS + c.suit].rank = -1\<close> for each card of a list, in order.
\<close>

fun mark_unavailable :: "Card list \<Rightarrow> Card list \<Rightarrow> error + Card list" where
  "mark_unavailable [] deck = Inr deck"
| "mark_unavailable (c # cs) deck =
     (let idx = rank c * int NUM_SUITS + suit c
      in if 0 \<le> idx \<and> idx < int (length deck)
         then mark_unavailable cs (deck[nat idx := (deck ! nat idx)\<lparr>rank := -1\<rparr>])
         else Inl (OutOfBounds DeckArray idx))"

text \<open>
  The \<^verbatim>\<open>do ... while\<close> loop that deals one opponent card: it copies \<^verbatim>\<open>deck[current_card]\<close>,
  advances the cursor, and repeats while the copied rank is \<open>-1\<close>.
\<close>

function deal_one :: "Card list \<Rightarrow> nat \<Rightarrow> error + (Card \<times> nat)" where
  "deal_one deck current_card =
     (if current_card < length deck
      then (if rank (deck ! current_card) = -1 then deal_one deck (current_card + 1)
            else Inr (deck ! current_card, current_card + 1))
      else Inl (OutOfBounds DeckArray (int current_card)))"
  by pat_completeness auto
termination
  by (relation "measure (\<lambda>(deck, current_card). length deck - current_card)") auto

declare deal_one.simps [simp del]

definition deal_hand :: "Card list \<Rightarrow> nat \<Rightarrow> error + (Card list \<times> nat)" where
  "deal_hand deck current_card =
     and_then (deal_one deck current_card) (\<lambda>(c0, cur1).
     and_then (deal_one deck cur1) (\<lambda>(c1, cur2). Inr ([c0, c1], cur2)))"

fun deal_opponents :: "Card list \<Rightarrow> nat \<Rightarrow> nat \<Rightarrow> error + (Card list list \<times> nat)" where
  "deal_opponents deck current_card 0 = Inr ([], current_card)"
| "deal_opponents deck current_card (Suc k) =
     and_then (deal_hand deck current_card) (\<lambda>(h, cur1).
     and_then (deal_opponents deck cur1 k) (\<lambda>(hs, cur2). Inr (h # hs, cur2)))"

text \<open>
  One trial up to the dealing of the opponents: a fresh deck is shuffled, the positions
  computed from the player's cards and the community cards are marked, and
  \<open>num_players - 1\<close> hands are dealt from position 0. The result is the opponents'
  hands, the final \<^verbatim>\<open>current_card\<close> and the number of \<^verbatim>\<open>rand()\<close> calls made.
\<close>

definition trial_deal ::
  "(nat \<Rightarrow> nat) \<Rightarrow> nat \<Rightarrow> Card list \<Rightarrow> Card list \<Rightarrow> nat
     \<Rightarrow> error + (Card list list \<times> nat \<times> nat)" where
  "trial_deal rand calls player_hand community_cards num_players =
     (case shuffle_deck rand calls initialize_deck of (deck, calls') \<Rightarrow>
        and_then (read_at HandArray player_hand 0) (\<lambda>p0.
        and_then (read_at HandArray player_hand 1) (\<lambda>p1.
        and_then (mark_unavailable [p0, p1] deck) (\<lambda>deck1.
        and_then (mark_unavailable community_cards deck1) (\<lambda>deck2.
        and_then (deal_opponents deck2 0 (num_players - 1)) (\<lambda>(opponent_hands, current_card).
          Inr (opponent_hands, current_card, calls')))))))"

definition trial ::
  "(nat \<Rightarrow> nat) \<Rightarrow> nat \<Rightarrow> Card list \<Rightarrow> Card list \<Rightarrow> nat \<Rightarrow> error + (int \<times> nat)" where
  "trial rand calls player_hand community_cards num_players =
     and_then (trial_deal rand calls player_hand community_cards num_players)
       (\<lambda>(opponent_hands, current_card, calls').
     and_then (find_winning_opponent player_hand opponent_hands community_cards)
       (\<lambda>winning_opponent_index. Inr (winning_opponent_index, calls')))"

text \<open>The trial loop; its state is \<open>(wins, ties, losses)\<close>.\<close>

fun run_trials ::
  "nat \<Rightarrow> (nat \<Rightarrow> nat) \<Rightarrow> nat \<Rightarrow> Card list \<Rightarrow> Card list \<Rightarrow> nat \<Rightarrow> int \<times> int \<times> int
     \<Rightarrow> error + (int \<times> int \<times> int)" where
  "run_trials 0 rand calls player_hand community_cards num_players st = Inr st"
| "run_trials (Suc n) rand calls player_hand community_cards num_players (wins, ties, losses) =
     and_then (trial rand calls player_hand community_cards num_players)
       (\<lambda>(winning_opponent_index, calls').
          run_trials n rand calls' player_hand community_cards num_players
            (if winning_opponent_index = -1 then (wins + 1, ties, losses)
             else (wins, ties, losses + 1)))"

text \<open>C's integer division truncates towards zero and is undefined for a zero divisor.\<close>

definition c_div :: "int \<Rightarrow> int \<Rightarrow> error + int" where
  "c_div a b = (if b = 0 then Inl DivisionByZero else Inr (sgn a * sgn b * (\<bar>a\<bar> div \<bar>b\<bar>)))"

definition calculate_win_probability ::
  "(nat \<Rightarrow> nat) \<Rightarrow> nat \<Rightarrow> Card list \<Rightarrow> Card list \<Rightarrow> nat \<Rightarrow> error + int" where
  "calculate_win_probability rand calls player_hand community_cards num_players =
     and_then (run_trials MONTE_CARLO_SIMULATIONS rand calls player_hand community_cards
                 num_players (0, 0, 0))
       (\<lambda>(wins, ties, losses). c_div (wins * 100) (wins + losses + ties))"

section \<open>Notions used to state the properties\<close>

text \<open>
  A card of the 52-card domain, the input the evaluator is specified for (two hole
  cards and up to five community cards, all distinct), and the number of cards of a
  rank or of a suit.
\<close>

definition valid_card :: "Card \<Rightarrow> bool" where
  "valid_card c \<longleftrightarrow>
     0 \<le> rank c \<and> rank c < int NUM_RANKS \<and> 0 \<le> suit c \<and> suit c < int NUM_SUITS"

definition valid_cards :: "Card list \<Rightarrow> Card list \<Rightarrow> bool" where
  "valid_cards hand community_cards \<longleftrightarrow>
     length hand = HAND_SIZE \<and> length community_cards \<le> 5 \<and>
     distinct (hand @ community_cards) \<and> list_all valid_card (hand @ community_cards)"

definition rank_occurrences :: "Card list \<Rightarrow> int \<Rightarrow> nat" where
  "rank_occurrences cs r = length (filter (\<lambda>c. rank c = r) cs)"

definition suit_occurrences :: "Card list \<Rightarrow> int \<Rightarrow> nat" where
  "suit_occurrences cs s = length (filter (\<lambda>c. suit c = s) cs)"

text \<open>
  The three-level comparison of two evaluations: level, then \<open>highest_card\<close>, then
  \<open>second_highest_card\<close>.
\<close>

definition beats :: "HandEvaluation \<Rightarrow> HandEvaluation \<Rightarrow> bool" where
  "beats a b \<longleftrightarrow>
     combination_level a > combination_level b
     \<or> (combination_level a = combination_level b
        \<and> (highest_card a > highest_card b
           \<or> (highest_card a = highest_card b
              \<and> second_highest_card a > second_highest_card b)))"

section \<open>Basic facts\<close>

lemma and_then_Inl [simp]: "and_then (Inl e) f = Inl e"
  by (simp add: and_then_def)

lemma and_then_Inr [simp]: "and_then (Inr x) f = f x"
  by (simp add: and_then_def)

lemma and_then_eq_Inr:
  "and_then m f = Inr y \<longleftrightarrow> (\<exists>x. m = Inr x \<and> f x = Inr y)"
  by (cases m) simp_all

lemma read_at_in [simp]: "i < length xs \<Longrightarrow> read_at a xs i = Inr (xs ! i)"
  by (simp add: read_at_def)

lemma read_at_out [simp]: "\<not> i < length xs \<Longrightarrow> read_at a xs i = Inl (OutOfBounds a (int i))"
  by (simp add: read_at_def)

subsection \<open>Sorting\<close>

lemma filter_insert_sorted:
  "length (filter P (insert_sorted cmp x xs)) = length (filter P (x # xs))"
  by (induction xs) auto

lemma filter_qsort: "length (filter P (qsort cmp xs)) = length (filter P xs)"
  unfolding qsort_def by (induction xs) (auto simp: filter_insert_sorted)

lemma set_insert_sorted: "set (insert_sorted cmp x xs) = insert x (set xs)"
  by (induction xs) auto

lemma set_qsort: "set (qsort cmp xs) = set xs"
  unfolding qsort_def by (induction xs) (auto simp: set_insert_sorted)

lemma length_insert_sorted: "length (insert_sorted cmp x xs) = Suc (length xs)"
  by (induction xs) auto

lemma length_qsort: "length (qsort cmp xs) = length xs"
  unfolding qsort_def by (induction xs) (auto simp: length_insert_sorted)

lemma sorted_insert_sorted:
  "sorted_wrt (\<lambda>a b. rank b \<le> rank a) xs \<Longrightarrow>
   sorted_wrt (\<lambda>a b. rank b \<le> rank a) (insert_sorted compare_cards x xs)"
  by (induction xs) (auto simp: compare_cards_def set_insert_sorted)

lemma sorted_qsort: "sorted_wrt (\<lambda>a b. rank b \<le> rank a) (qsort compare_cards xs)"
  unfolding qsort_def by (induction xs) (auto simp: sorted_insert_sorted)

lemma qsort_first_max:
  assumes "c \<in> set xs"
  shows "rank c \<le> rank (qsort compare_cards xs ! 0)"
proof -
  let ?ys = "qsort compare_cards xs"
  from assms have "c \<in> set ?ys" by (simp add: set_qsort)
  then obtain k where k: "k < length ?ys" "?ys ! k = c" by (auto simp: in_set_conv_nth)
  show ?thesis
  proof (cases k)
    case 0
    with k show ?thesis by simp
  next
    case (Suc j)
    with k sorted_qsort [of xs] show ?thesis
      by (auto simp: sorted_wrt_iff_nth_less)
  qed
qed

lemma qsort_first_mem: "xs \<noteq> [] \<Longrightarrow> qsort compare_cards xs ! 0 \<in> set xs"
proof -
  assume "xs \<noteq> []"
  then have "0 < length (qsort compare_cards xs)" by (simp add: length_qsort)
  then have "qsort compare_cards xs ! 0 \<in> set (qsort compare_cards xs)" by (rule nth_mem)
  then show ?thesis by (simp add: set_qsort)
qed

subsection \<open>Counting\<close>

lemma count_cards_ok:
  "\<forall>c\<in>set cs. 0 \<le> rank c \<and> rank c < int (length rc) \<and> 0 \<le> suit c \<and> suit c < int (length sc) \<Longrightarrow>
   count_cards cs (rc, sc) =
     Inr (map (\<lambda>i. rc ! i + int (length (filter (\<lambda>c. rank c = int i) cs))) [0..<length rc],
          map (\<lambda>i. sc ! i + int (length (filter (\<lambda>c. suit c = int i) cs))) [0..<length sc])"
proof (induction cs arbitrary: rc sc)
  case Nil
  then show ?case by (simp add: map_nth)
next
  case (Cons c cs)
  let ?rc = "rc[nat (rank c) := rc ! nat (rank c) + 1]"
  let ?sc = "sc[nat (suit c) := sc ! nat (suit c) + 1]"
  from Cons.prems have c: "0 \<le> rank c" "rank c < int (length rc)" "0 \<le> suit c" "suit c < int (length sc)"
    by auto
  from Cons.prems have "\<forall>c\<in>set cs. 0 \<le> rank c \<and> rank c < int (length ?rc) \<and> 0 \<le> suit c \<and> suit c < int (length ?sc)"
    by auto
  from Cons.IH [OF this] c show ?case
    by (auto simp: nth_list_update)
qed


subsection \<open>The evaluator on valid cards\<close>

lemma evaluate_hand_counts:
  assumes len: "length hand = HAND_SIZE" and ok: "list_all valid_card (hand @ community_cards)"
  shows "evaluate_hand hand community_cards =
       Inr (classify
             (map (\<lambda>i. int (rank_occurrences (hand @ community_cards) (int i))) [0..<NUM_RANKS])
             (map (\<lambda>i. int (suit_occurrences (hand @ community_cards) (int i))) [0..<NUM_SUITS])
             \<lparr>combination_level = 0,
              highest_card = rank (qsort compare_cards (hand @ community_cards) ! 0),
              second_highest_card = -1\<rparr>)"
proof -
  let ?cs = "hand @ community_cards"
  let ?all = "qsort compare_cards ?cs"
  let ?rc = "map (\<lambda>i. int (rank_occurrences ?cs (int i))) [0..<NUM_RANKS]"
  let ?sc = "map (\<lambda>i. int (suit_occurrences ?cs (int i))) [0..<NUM_SUITS]"
  from len obtain h0 h1 where hand: "hand = [h0, h1]"
    by (auto simp: HAND_SIZE_def length_Suc_conv numeral_2_eq_2)
  have "\<forall>c\<in>set ?all. 0 \<le> rank c \<and> rank c < int (length (replicate NUM_RANKS (0::int)))
          \<and> 0 \<le> suit c \<and> suit c < int (length (replicate NUM_SUITS (0::int)))"
    using ok by (auto simp: set_qsort list_all_iff valid_card_def)
  from count_cards_ok [OF this]
  have "count_cards ?all (replicate NUM_RANKS 0, replicate NUM_SUITS 0) = Inr (?rc, ?sc)"
    by (simp add: filter_qsort rank_occurrences_def suit_occurrences_def)
  then show ?thesis
    by (simp add: evaluate_hand_def hand)
qed

subsection \<open>The loops of the evaluator\<close>

lemma flush_scan_Continue:
  "\<forall>i\<in>set is. sc ! i < 5 \<Longrightarrow> flush_scan sc is e = Continue ()"
  by (induction "is") auto

lemma flush_scan_Return:
  "flush_scan sc is e = Return e' \<Longrightarrow> e' = e\<lparr>combination_level := 6\<rparr> \<and> (\<exists>i\<in>set is. sc ! i \<ge> 5)"
  by (induction "is") (auto split: if_splits)

lemma flush_scan_found:
  "\<exists>i\<in>set is. sc ! i \<ge> 5 \<Longrightarrow> flush_scan sc is e = Return (e\<lparr>combination_level := 6\<rparr>)"
  by (induction "is") auto

lemma kind_scan_four:
  "r \<in> set is \<Longrightarrow> rc ! r = 4 \<Longrightarrow> \<forall>j\<in>set is. rc ! j = 4 \<longrightarrow> j = r \<Longrightarrow>
   \<exists>e. kind_scan rc is st = Return e \<and> combination_level e = 8 \<and> highest_card e = int r"
proof (induction "is" arbitrary: st)
  case Nil
  then show ?case by simp
next
  case (Cons i "is")
  obtain ht hp e where st: "st = (ht, hp, e)" by (rule prod_cases3)
  show ?case
  proof (cases "rc ! i = 4")
    case True
    with Cons.prems have "i = r" by simp
    with True st show ?thesis by simp
  next
    case False
    with Cons.prems have "r \<in> set is" "\<forall>j\<in>set is. rc ! j = 4 \<longrightarrow> j = r" by auto
    from Cons.IH [OF this(1) Cons.prems(2) this(2)] False st show ?thesis by simp
  qed
qed

lemma kind_scan_Continue:
  "\<forall>j\<in>set is. rc ! j \<noteq> 4 \<Longrightarrow> \<exists>st'. kind_scan rc is st = Continue st'"
proof (induction "is" arbitrary: st)
  case Nil
  show ?case by (simp del: split_paired_Ex)
next
  case (Cons i "is")
  obtain ht hp e where st: "st = (ht, hp, e)" by (rule prod_cases3)
  from Cons show ?case unfolding st by simp
qed

lemma straight_scan_Return:
  "straight_scan rc is k e = Return e' \<Longrightarrow> combination_level e' = 4"
  by (induction "is" arbitrary: k) (auto split: if_splits)

lemma classify_level_less_8:
  assumes "\<forall>i<NUM_RANKS. rc ! i \<noteq> 4"
  shows "combination_level (classify rc sc e) < 8"
proof -
  from assms have "\<forall>j\<in>set [0..<NUM_RANKS]. rc ! j \<noteq> 4" by simp
  from kind_scan_Continue [OF this]
  obtain st' where k: "kind_scan rc [0..<NUM_RANKS] (False, False, e) = Continue st'" by blast
  show ?thesis
    unfolding classify_def k
    by (auto split: flow.splits prod.splits dest: flush_scan_Return straight_scan_Return)
qed

lemma classify_four:
  assumes "\<forall>i<NUM_SUITS. sc ! i < 5" and "r < NUM_RANKS" and "rc ! r = 4"
    and "\<forall>j<NUM_RANKS. rc ! j = 4 \<longrightarrow> j = r"
  shows "combination_level (classify rc sc e) = 8 \<and> highest_card (classify rc sc e) = int r"
proof -
  from assms(1) have "\<forall>i\<in>set [0..<NUM_SUITS]. sc ! i < 5" by simp
  then have f: "flush_scan sc [0..<NUM_SUITS] e = Continue ()"
    by (rule flush_scan_Continue)
  from assms(2) have 1: "r \<in> set [0..<NUM_RANKS]" by simp
  from assms(4) have 2: "\<forall>j\<in>set [0..<NUM_RANKS]. rc ! j = 4 \<longrightarrow> j = r" by simp
  from kind_scan_four [OF 1 assms(3) 2] obtain e' where
    k: "kind_scan rc [0..<NUM_RANKS] (False, False, e) = Return e'"
    and e': "combination_level e' = 8" "highest_card e' = int r"
    by blast
  have "classify rc sc e = e'" by (simp add: classify_def f k)
  with e' show ?thesis by simp
qed

subsection \<open>Counting distinct cards\<close>

lemma length_filter_split:
  "length (filter P xs) = length (filter (\<lambda>x. P x \<and> Q x) xs) + length (filter (\<lambda>x. P x \<and> \<not> Q x) xs)"
  by (induction xs) auto

lemma length_filter_mono:
  "(\<And>x. x \<in> set xs \<Longrightarrow> P x \<Longrightarrow> Q x) \<Longrightarrow> length (filter P xs) \<le> length (filter Q xs)"
  by (induction xs) auto

lemma same_card_once:
  fixes cs :: "Card list"
  assumes "distinct cs"
  shows "length (filter (\<lambda>c. suit c = s \<and> rank c = r) cs) \<le> 1"
proof -
  let ?f = "filter (\<lambda>c. suit c = s \<and> rank c = r) cs"
  have "distinct ?f" using assms by simp
  then have "length ?f = card (set ?f)" by (rule distinct_card [symmetric])
  also have "set ?f \<subseteq> {\<lparr>rank = r, suit = s\<rparr>}" by auto
  then have "card (set ?f) \<le> card {\<lparr>rank = r, suit = s\<rparr>}" by (intro card_mono) simp_all
  finally show ?thesis by simp
qed

lemma other_ranks:
  "length (filter (\<lambda>c. rank c \<noteq> r) cs) = length cs - rank_occurrences cs r"
  using sum_length_filter_compl [of "\<lambda>c. rank c = r" cs] by (simp add: rank_occurrences_def)

lemma four_of_a_kind_no_flush:
  assumes "distinct cs" and "length cs \<le> 7" and "rank_occurrences cs r = 4"
  shows "suit_occurrences cs s < 5"
proof -
  have "suit_occurrences cs s =
      length (filter (\<lambda>c. suit c = s \<and> rank c = r) cs) + length (filter (\<lambda>c. suit c = s \<and> rank c \<noteq> r) cs)"
    unfolding suit_occurrences_def by (rule length_filter_split)
  moreover have "length (filter (\<lambda>c. suit c = s \<and> rank c \<noteq> r) cs) \<le> length (filter (\<lambda>c. rank c \<noteq> r) cs)"
    by (rule length_filter_mono) simp
  moreover note same_card_once [OF assms(1), of s r] other_ranks [of r cs]
  ultimately show ?thesis using assms(2,3) by simp
qed

lemma four_of_a_kind_unique:
  assumes "length cs \<le> 7" and "rank_occurrences cs r = 4" and "rank_occurrences cs r' = 4"
  shows "r' = r"
proof (rule ccontr)
  assume "r' \<noteq> r"
  then have "length (filter (\<lambda>c. rank c = r') cs) \<le> length (filter (\<lambda>c. rank c \<noteq> r) cs)"
    by (intro length_filter_mono) simp
  with other_ranks [of r cs] assms show False by (simp add: rank_occurrences_def)
qed

lemma rank_occurrences_valid:
  assumes "list_all valid_card cs" and "0 < rank_occurrences cs r"
  shows "0 \<le> r \<and> r < int NUM_RANKS"
proof -
  from assms(2) have "filter (\<lambda>c. rank c = r) cs \<noteq> []" by (simp add: rank_occurrences_def)
  then obtain c where "c \<in> set cs" "rank c = r" by (auto simp: filter_empty_conv)
  with assms(1) show ?thesis by (auto simp: list_all_iff valid_card_def)
qed

section \<open>Four of a kind\<close>

text \<open>
  Claim C5. For two hole cards and up to five community cards, all distinct cards of
  the deck: if some rank occurs four times, \<open>evaluate_hand\<close> returns level 8 with that
  rank as \<open>highest_card\<close> (the flush loop, which runs first, cannot return on such an
  input); and if no rank occurs four times, the level returned is less than 8.
\<close>

theorem evaluate_hand_four_of_a_kind:
  assumes "valid_cards hand community_cards"
  shows "(rank_occurrences (hand @ community_cards) r = 4 \<longrightarrow>
            (\<exists>e. evaluate_hand hand community_cards = Inr e
                 \<and> combination_level e = 8 \<and> highest_card e = r))
       \<and> ((\<forall>q. rank_occurrences (hand @ community_cards) q \<noteq> 4) \<longrightarrow>
            (\<exists>e. evaluate_hand hand community_cards = Inr e \<and> combination_level e < 8))"
proof -
  let ?cs = "hand @ community_cards"
  from assms have len: "length hand = HAND_SIZE" and ok: "list_all valid_card ?cs"
    and dist: "distinct ?cs" and le7: "length ?cs \<le> 7"
    by (simp_all add: valid_cards_def HAND_SIZE_def)
  define rc where "rc = map (\<lambda>i. int (rank_occurrences ?cs (int i))) [0..<NUM_RANKS]"
  define sc where "sc = map (\<lambda>i. int (suit_occurrences ?cs (int i))) [0..<NUM_SUITS]"
  define e0 where "e0 = \<lparr>combination_level = 0,
     highest_card = rank (qsort compare_cards ?cs ! 0), second_highest_card = -1\<rparr>"
  have ev: "evaluate_hand hand community_cards = Inr (classify rc sc e0)"
    unfolding rc_def sc_def e0_def by (rule evaluate_hand_counts [OF len ok])
  have rc: "rc ! i = int (rank_occurrences ?cs (int i))" if "i < NUM_RANKS" for i
    using that by (simp add: rc_def)
  have sc: "sc ! i = int (suit_occurrences ?cs (int i))" if "i < NUM_SUITS" for i
    using that by (simp add: sc_def)
  have four: "combination_level (classify rc sc e0) = 8 \<and> highest_card (classify rc sc e0) = r"
    if r4: "rank_occurrences ?cs r = 4"
  proof -
    from rank_occurrences_valid [OF ok, of r] r4 have r: "0 \<le> r" "r < int NUM_RANKS" by simp_all
    then have nr: "nat r < NUM_RANKS" "int (nat r) = r" by simp_all
    have "\<forall>i<NUM_SUITS. sc ! i < 5"
      using four_of_a_kind_no_flush [OF dist le7 r4] by (simp add: sc)
    moreover have "rc ! nat r = 4" using r4 nr by (simp add: rc)
    moreover have "\<forall>j<NUM_RANKS. rc ! j = 4 \<longrightarrow> j = nat r"
    proof (intro allI impI)
      fix j assume "j < NUM_RANKS" "rc ! j = 4"
      then have "rank_occurrences ?cs (int j) = 4" by (simp add: rc)
      from four_of_a_kind_unique [OF le7 r4 this] show "j = nat r" by simp
    qed
    ultimately have "combination_level (classify rc sc e0) = 8
        \<and> highest_card (classify rc sc e0) = int (nat r)"
      using nr(1) by (intro classify_four)
    then show ?thesis unfolding nr(2) .
  qed
  have less: "combination_level (classify rc sc e0) < 8"
    if none: "\<forall>q. rank_occurrences ?cs q \<noteq> 4"
  proof (rule classify_level_less_8, intro allI impI)
    fix i assume "i < NUM_RANKS"
    with none show "rc ! i \<noteq> 4" by (simp add: rc)
  qed
  from four less show ?thesis unfolding ev by blast
qed

theorem evaluate_hand_four_of_a_kind_witness:
  "valid_cards [\<lparr>rank = 5, suit = 2\<rparr>, \<lparr>rank = 5, suit = 1\<rparr>]
               [\<lparr>rank = 5, suit = 3\<rparr>, \<lparr>rank = 5, suit = 0\<rparr>, \<lparr>rank = 0, suit = 2\<rparr>]
   \<and> rank_occurrences ([\<lparr>rank = 5, suit = 2\<rparr>, \<lparr>rank = 5, suit = 1\<rparr>]
        @ [\<lparr>rank = 5, suit = 3\<rparr>, \<lparr>rank = 5, suit = 0\<rparr>, \<lparr>rank = 0, suit = 2\<rparr>]) 5 = 4
   \<and> (\<exists>e. evaluate_hand [\<lparr>rank = 5, suit = 2\<rparr>, \<lparr>rank = 5, suit = 1\<rparr>]
               [\<lparr>rank = 5, suit = 3\<rparr>, \<lparr>rank = 5, suit = 0\<rparr>, \<lparr>rank = 0, suit = 2\<rparr>] = Inr e
          \<and> combination_level e = 8 \<and> highest_card e = 5)
   \<and> valid_cards [\<lparr>rank = 12, suit = 3\<rparr>, \<lparr>rank = 11, suit = 3\<rparr>] []
   \<and> (\<forall>q. rank_occurrences ([\<lparr>rank = 12, suit = 3\<rparr>, \<lparr>rank = 11, suit = 3\<rparr>] @ []) q \<noteq> 4)
   \<and> (\<exists>e. evaluate_hand [\<lparr>rank = 12, suit = 3\<rparr>, \<lparr>rank = 11, suit = 3\<rparr>] [] = Inr e
          \<and> combination_level e < 8)"
proof -
  let ?h1 = "[\<lparr>rank = 5, suit = 2\<rparr>, \<lparr>rank = 5, suit = 1\<rparr>]"
  let ?c1 = "[\<lparr>rank = 5, suit = 3\<rparr>, \<lparr>rank = 5, suit = 0\<rparr>, \<lparr>rank = 0, suit = 2\<rparr>]"
  let ?h2 = "[\<lparr>rank = 12, suit = 3\<rparr>, \<lparr>rank = 11, suit = 3\<rparr>]"
  have v1: "valid_cards ?h1 ?c1"
    by (simp add: valid_cards_def valid_card_def HAND_SIZE_def NUM_RANKS_def NUM_SUITS_def)
  have r1: "rank_occurrences (?h1 @ ?c1) 5 = 4"
    by (simp add: rank_occurrences_def)
  have v2: "valid_cards ?h2 []"
    by (simp add: valid_cards_def valid_card_def HAND_SIZE_def NUM_RANKS_def NUM_SUITS_def)
  have r2: "\<forall>q. rank_occurrences (?h2 @ []) q \<noteq> 4"
    by (simp add: rank_occurrences_def)
  from evaluate_hand_four_of_a_kind [OF v1, of 5] r1
  have e1: "\<exists>e. evaluate_hand ?h1 ?c1 = Inr e \<and> combination_level e = 8 \<and> highest_card e = 5"
    by blast
  from evaluate_hand_four_of_a_kind [OF v2, of 0] r2
  have e2: "\<exists>e. evaluate_hand ?h2 [] = Inr e \<and> combination_level e < 8"
    by blast
  from v1 r1 e1 v2 r2 e2 show ?thesis by blast
qed

section \<open>Flush and pairs\<close>

text \<open>
  What the evaluator reports for a flush: level 6, and as \<open>highest_card\<close> the highest
  rank among all the cards, whatever their suit.
\<close>

lemma evaluate_hand_flush:
  assumes "valid_cards hand community_cards"
    and "5 \<le> suit_occurrences (hand @ community_cards) s"
  shows "\<exists>e. evaluate_hand hand community_cards = Inr e \<and> combination_level e = 6
     \<and> second_highest_card e = -1
     \<and> (\<exists>c\<in>set (hand @ community_cards). highest_card e = rank c)
     \<and> (\<forall>c\<in>set (hand @ community_cards). rank c \<le> highest_card e)"
proof -
  define cs where "cs = hand @ community_cards"
  define rc where "rc = map (\<lambda>i. int (rank_occurrences cs (int i))) [0..<NUM_RANKS]"
  define sc where "sc = map (\<lambda>i. int (suit_occurrences cs (int i))) [0..<NUM_SUITS]"
  define e0 where "e0 = \<lparr>combination_level = 0, highest_card = rank (qsort compare_cards cs ! 0),
             second_highest_card = -1\<rparr>"
  from assms(1) have len: "length hand = HAND_SIZE" and ok: "list_all valid_card cs"
    by (simp_all add: valid_cards_def cs_def)
  from assms(2) have "filter (\<lambda>c. suit c = s) cs \<noteq> []"
    by (auto simp: suit_occurrences_def cs_def)
  then obtain c where c: "c \<in> set cs" "suit c = s"
    unfolding filter_empty_conv by blast
  with ok have s: "0 \<le> s" "s < int NUM_SUITS"
    by (auto simp: list_all_iff valid_card_def)
  then have ns: "nat s < NUM_SUITS" "int (nat s) = s" by simp_all
  then have "nat s \<in> set [0..<NUM_SUITS]" "sc ! nat s \<ge> 5"
    using assms(2) by (simp_all add: sc_def cs_def)
  then have "\<exists>i\<in>set [0..<NUM_SUITS]. sc ! i \<ge> 5" by blast
  then have "flush_scan sc [0..<NUM_SUITS] e0 = Return (e0\<lparr>combination_level := 6\<rparr>)"
    by (rule flush_scan_found)
  then have "classify rc sc e0 = e0\<lparr>combination_level := 6\<rparr>"
    by (simp add: classify_def)
  moreover have "evaluate_hand hand community_cards = Inr (classify rc sc e0)"
    using evaluate_hand_counts [of hand community_cards] len ok
    by (simp add: rc_def sc_def e0_def cs_def)
  ultimately have ev: "evaluate_hand hand community_cards = Inr (e0\<lparr>combination_level := 6\<rparr>)"
    by simp
  from c(1) have ne: "cs \<noteq> []" by auto
  have "qsort compare_cards cs ! 0 \<in> set cs" using ne by (rule qsort_first_mem)
  moreover have "\<forall>c\<in>set cs. rank c \<le> rank (qsort compare_cards cs ! 0)"
    by (blast intro: qsort_first_max)
  ultimately have "combination_level (e0\<lparr>combination_level := 6\<rparr>) = 6
     \<and> second_highest_card (e0\<lparr>combination_level := 6\<rparr>) = -1
     \<and> (\<exists>c\<in>set cs. highest_card (e0\<lparr>combination_level := 6\<rparr>) = rank c)
     \<and> (\<forall>c\<in>set cs. rank c \<le> highest_card (e0\<lparr>combination_level := 6\<rparr>))"
    by (auto simp: e0_def)
  with ev show ?thesis unfolding cs_def by blast
qed

text \<open>
  Claim C3 says that a flush is reported with the highest rank among the cards of the
  flush suit. On the hand A-hearts 2-spades with the board 4, 6, 8, 9 of spades and
  K-diamonds the suit of spades holds five cards, the highest of them the 9 (rank 7),
  and \<open>evaluate_hand\<close> returns level 6 with \<open>highest_card = 12\<close>, the ace of hearts.
\<close>

theorem flush_reports_rank_of_other_suit:
  "evaluate_hand [\<lparr>rank = 12, suit = 0\<rparr>, \<lparr>rank = 0, suit = 3\<rparr>]
     [\<lparr>rank = 2, suit = 3\<rparr>, \<lparr>rank = 4, suit = 3\<rparr>, \<lparr>rank = 6, suit = 3\<rparr>, \<lparr>rank = 7, suit = 3\<rparr>, \<lparr>rank = 11, suit = 1\<rparr>]
   = Inr \<lparr>combination_level = 6, highest_card = 12, second_highest_card = - 1\<rparr>"
  by code_simp

subsection \<open>One pair\<close>

lemma kind_scan_append:
  "kind_scan rc (as @ bs) st =
     (case kind_scan rc as st of Return e \<Rightarrow> Return e | Continue st' \<Rightarrow> kind_scan rc bs st')"
proof (induction as arbitrary: st)
  case Nil
  show ?case by simp
next
  case (Cons i as)
  obtain ht hp e where st: "st = (ht, hp, e)" by (rule prod_cases3)
  show ?case unfolding st by (simp add: Cons.IH)
qed

lemma kind_scan_skip:
  "\<forall>i\<in>set is. rc ! i \<noteq> 2 \<and> rc ! i \<noteq> 3 \<and> rc ! i \<noteq> 4 \<Longrightarrow> kind_scan rc is st = Continue st"
proof (induction "is")
  case Nil
  show ?case by simp
next
  case (Cons i "is")
  obtain ht hp e where st: "st = (ht, hp, e)" by (rule prod_cases3)
  from Cons show ?case unfolding st by simp
qed

lemma pair_scan_append:
  "pair_scan rc (as @ bs) st = pair_scan rc bs (pair_scan rc as st)"
proof (induction as arbitrary: st)
  case Nil
  show ?case by simp
next
  case (Cons i as)
  obtain n e where st: "st = (n, e)" by (cases st)
  show ?case unfolding st by (simp add: Cons.IH)
qed

lemma pair_scan_skip: "\<forall>i\<in>set is. rc ! i \<noteq> 2 \<Longrightarrow> pair_scan rc is st = st"
proof (induction "is")
  case Nil
  show ?case by simp
next
  case (Cons i "is")
  obtain n e where st: "st = (n, e)" by (cases st)
  from Cons show ?case unfolding st by simp
qed

lemma upt_split3: "p < n \<Longrightarrow> [0..<n] = [0..<p] @ [p] @ [Suc p..<n]"
  by (metis Suc_leI append_Cons append_Nil le0 upt_add_eq_append upt_conv_Cons upt_rec
      le_add_diff_inverse less_imp_le_nat)

lemma straight_scan_none:
  assumes norun: "\<forall>a. a + 4 < N \<longrightarrow> (\<exists>j<5. \<not> rc ! (a + j) > 0)"
  shows "n + k \<le> N \<Longrightarrow> k < 5 \<Longrightarrow> \<forall>j<k. rc ! (n + j) > 0 \<Longrightarrow>
     \<exists>k'. straight_scan rc (rev [0..<n]) (int k) e = Continue k'"
proof (induction n arbitrary: k)
  case 0
  show ?case by simp
next
  case (Suc n)
  show ?case
  proof (cases "rc ! n > 0")
    case True
    have occ: "\<forall>j<Suc k. rc ! (n + j) > 0"
    proof (intro allI impI)
      fix j assume "j < Suc k"
      show "rc ! (n + j) > 0"
      proof (cases j)
        case 0
        with True show ?thesis by simp
      next
        case (Suc j')
        with \<open>j < Suc k\<close> Suc.prems(3) show ?thesis by simp
      qed
    qed
    have k4: "Suc k < 5"
    proof (rule ccontr)
      assume "\<not> Suc k < 5"
      with Suc.prems(2) have "k = 4" by simp
      with Suc.prems(1) have "n + 4 < N" by simp
      with norun obtain j where "j < 5" "\<not> rc ! (n + j) > 0" by blast
      with occ \<open>k = 4\<close> show False by simp
    qed
    from Suc.prems(1) have "n + Suc k \<le> N" by simp
    from Suc.IH [OF this k4 occ] True k4 show ?thesis
      by (simp add: add.commute)
  next
    case False
    from Suc.prems(1) have "n + 0 \<le> N" by simp
    from Suc.IH [OF this, of ] False show ?thesis by simp
  qed
qed


text \<open>
  What the evaluator reports for a hand whose only combination is one pair: level 1,
  as \<open>highest_card\<close> the highest rank among all the cards (the paired rank only when no
  card is higher), and the paired rank as \<open>second_highest_card\<close>.
\<close>

lemma evaluate_hand_one_pair:
  assumes valid: "valid_cards hand community_cards"
    and noflush: "\<forall>s. suit_occurrences (hand @ community_cards) s < 5"
    and nokind: "\<forall>r. rank_occurrences (hand @ community_cards) r \<noteq> 3
                   \<and> rank_occurrences (hand @ community_cards) r \<noteq> 4"
    and norun: "\<forall>a. \<exists>j<5. rank_occurrences (hand @ community_cards) (a + int j) = 0"
    and pair: "rank_occurrences (hand @ community_cards) p = 2"
    and only: "\<forall>r. rank_occurrences (hand @ community_cards) r = 2 \<longrightarrow> r = p"
  shows "\<exists>e. evaluate_hand hand community_cards = Inr e \<and> combination_level e = 1
     \<and> second_highest_card e = p
     \<and> (\<exists>c\<in>set (hand @ community_cards). highest_card e = rank c)
     \<and> (\<forall>c\<in>set (hand @ community_cards). rank c \<le> highest_card e)"
proof -
  define cs where "cs = hand @ community_cards"
  define rc where "rc = map (\<lambda>i. int (rank_occurrences cs (int i))) [0..<NUM_RANKS]"
  define sc where "sc = map (\<lambda>i. int (suit_occurrences cs (int i))) [0..<NUM_SUITS]"
  define m where "m = rank (qsort compare_cards cs ! 0)"
  define e0 where "e0 = \<lparr>combination_level = 0, highest_card = m, second_highest_card = -1\<rparr>"
  define e1 where "e1 = e0\<lparr>second_highest_card := p\<rparr>"
  from valid have len: "length hand = HAND_SIZE" and ok: "list_all valid_card cs"
    by (simp_all add: valid_cards_def cs_def)
  have ev: "evaluate_hand hand community_cards = Inr (classify rc sc e0)"
    using evaluate_hand_counts [of hand community_cards] len ok
    by (simp add: rc_def sc_def e0_def m_def cs_def)
  have rc: "rc ! i = int (rank_occurrences cs (int i))" if "i < NUM_RANKS" for i
    using that by (simp add: rc_def)
  from rank_occurrences_valid [OF ok, of p] pair have p: "0 \<le> p" "p < int NUM_RANKS"
    by (simp_all add: cs_def)
  define np where "np = nat p"
  from p have np: "np < NUM_RANKS" "int np = p" by (simp_all add: np_def)
  have rcp: "rc ! np = 2" using np pair by (simp add: rc cs_def)
  have other: "rc ! i \<noteq> 2 \<and> rc ! i \<noteq> 3 \<and> rc ! i \<noteq> 4" if "i < NUM_RANKS" "i \<noteq> np" for i
  proof -
    from that np only have "rank_occurrences cs (int i) \<noteq> 2" by (auto simp: cs_def)
    with nokind that(1) show ?thesis by (simp add: rc cs_def)
  qed
  have split: "[0..<NUM_RANKS] = [0..<np] @ [np] @ [Suc np..<NUM_RANKS]"
    using np(1) by (rule upt_split3)
  have before: "\<forall>i\<in>set [0..<np]. rc ! i \<noteq> 2 \<and> rc ! i \<noteq> 3 \<and> rc ! i \<noteq> 4"
    using other np(1) by simp
  have after: "\<forall>i\<in>set [Suc np..<NUM_RANKS]. rc ! i \<noteq> 2 \<and> rc ! i \<noteq> 3 \<and> rc ! i \<noteq> 4"
    using other by simp
  \<comment> \<open>the flush loop\<close>
  have "\<forall>i\<in>set [0..<NUM_SUITS]. sc ! i < 5"
    using noflush by (simp add: sc_def cs_def)
  then have f: "flush_scan sc [0..<NUM_SUITS] e0 = Continue ()"
    by (rule flush_scan_Continue)
  \<comment> \<open>the loop over the ranks\<close>
  have k2: "kind_scan rc [np] (False, False, e0) = Continue (False, True, e1)"
    using rcp np(2) by (simp add: e0_def e1_def)
  have "kind_scan rc ([0..<np] @ [np] @ [Suc np..<NUM_RANKS]) (False, False, e0)
          = Continue (False, True, e1)"
    by (simp only: kind_scan_append kind_scan_skip [OF before] kind_scan_skip [OF after] k2
          flow.case)
  then have k: "kind_scan rc [0..<NUM_RANKS] (False, False, e0) = Continue (False, True, e1)"
    by (simp only: split [symmetric])
  \<comment> \<open>the straight loop\<close>
  have "\<forall>a. a + 4 < NUM_RANKS \<longrightarrow> (\<exists>j<5. \<not> rc ! (a + j) > 0)"
  proof (intro allI impI)
    fix a assume a: "a + 4 < NUM_RANKS"
    from norun obtain j where j: "j < 5" "rank_occurrences cs (int a + int j) = 0"
      unfolding cs_def by blast
    from a j(1) have "a + j < NUM_RANKS" by simp
    from rc [OF this] j show "\<exists>j<5. \<not> rc ! (a + j) > 0" by auto
  qed
  from straight_scan_none [OF this, of NUM_RANKS 0 e1]
  obtain k' where s: "straight_scan rc (rev [0..<NUM_RANKS]) 0 e1 = Continue k'"
    by auto
  \<comment> \<open>the pair loop\<close>
  have "qsort compare_cards cs ! 0 \<in> set cs \<and> (\<forall>c\<in>set cs. rank c \<le> m)"
  proof -
    from pair have "cs \<noteq> []" by (auto simp: rank_occurrences_def cs_def)
    then show ?thesis unfolding m_def by (blast intro: qsort_first_mem qsort_first_max)
  qed
  then have m: "\<exists>c\<in>set cs. m = rank c" "\<forall>c\<in>set cs. rank c \<le> m"
    by (auto simp: m_def)
  from pair have "filter (\<lambda>c. rank c = p) cs \<noteq> []" by (auto simp: rank_occurrences_def cs_def)
  then obtain c where "c \<in> set cs" "rank c = p" unfolding filter_empty_conv by blast
  with m(2) have "p \<le> m" by auto
  then have p2: "pair_scan rc [np] (0, e1) = (1, e1)"
    using rcp np(2) by (simp add: e0_def e1_def)
  from before have b2: "\<forall>i\<in>set [0..<np]. rc ! i \<noteq> 2" by simp
  from after have a2: "\<forall>i\<in>set [Suc np..<NUM_RANKS]. rc ! i \<noteq> 2" by simp
  have "pair_scan rc ([0..<np] @ [np] @ [Suc np..<NUM_RANKS]) (0, e1) = (1, e1)"
    by (simp only: pair_scan_append pair_scan_skip [OF b2] pair_scan_skip [OF a2] p2)
  then have ps: "pair_scan rc [0..<NUM_RANKS] (0, e1) = (1, e1)"
    by (simp only: split [symmetric])
  have "classify rc sc e0 = e1\<lparr>combination_level := 1\<rparr>"
    by (simp add: classify_def f k s ps)
  with ev have "evaluate_hand hand community_cards = Inr (e1\<lparr>combination_level := 1\<rparr>)" by simp
  moreover have "combination_level (e1\<lparr>combination_level := 1\<rparr>) = 1
      \<and> second_highest_card (e1\<lparr>combination_level := 1\<rparr>) = p
      \<and> (\<exists>c\<in>set cs. highest_card (e1\<lparr>combination_level := 1\<rparr>) = rank c)
      \<and> (\<forall>c\<in>set cs. rank c \<le> highest_card (e1\<lparr>combination_level := 1\<rparr>))"
    using m by (simp add: e1_def e0_def)
  ultimately show ?thesis unfolding cs_def by blast
qed

text \<open>An input that meets the conditions of the lemma.\<close>

lemma evaluate_hand_one_pair_instance:
  "\<exists>e. evaluate_hand [\<lparr>rank = 12, suit = 0\<rparr>, \<lparr>rank = 0, suit = 3\<rparr>]
     [\<lparr>rank = 0, suit = 1\<rparr>, \<lparr>rank = 3, suit = 2\<rparr>, \<lparr>rank = 7, suit = 0\<rparr>] = Inr e
    \<and> combination_level e = 1 \<and> second_highest_card e = 0"
proof -
  let ?h = "[\<lparr>rank = 12, suit = 0\<rparr>, \<lparr>rank = 0, suit = 3\<rparr>]"
  let ?c = "[\<lparr>rank = 0, suit = 1\<rparr>, \<lparr>rank = 3, suit = 2\<rparr>, \<lparr>rank = 7, suit = 0\<rparr>]"
  have v: "valid_cards ?h ?c"
    by (simp add: valid_cards_def valid_card_def HAND_SIZE_def NUM_RANKS_def NUM_SUITS_def)
  have 1: "\<forall>s. suit_occurrences (?h @ ?c) s < 5" by (simp add: suit_occurrences_def)
  have 2: "\<forall>r. rank_occurrences (?h @ ?c) r \<noteq> 3 \<and> rank_occurrences (?h @ ?c) r \<noteq> 4"
    by (simp add: rank_occurrences_def)
  have 3: "\<forall>a. \<exists>j<5. rank_occurrences (?h @ ?c) (a + int j) = 0"
  proof
    fix a :: int
    show "\<exists>j<5. rank_occurrences (?h @ ?c) (a + int j) = 0"
    proof (cases "a = 12 \<or> a = 0 \<or> a = 3 \<or> a = 7")
      case True
      then have "rank_occurrences (?h @ ?c) (a + int 1) = 0"
        by (auto simp: rank_occurrences_def)
      then show ?thesis by (intro exI [of _ 1]) simp
    next
      case False
      then have "rank_occurrences (?h @ ?c) (a + int 0) = 0"
        by (auto simp: rank_occurrences_def)
      then show ?thesis by (intro exI [of _ 0]) simp
    qed
  qed
  have 4: "rank_occurrences (?h @ ?c) 0 = 2" by (simp add: rank_occurrences_def)
  have 5: "\<forall>r. rank_occurrences (?h @ ?c) r = 2 \<longrightarrow> r = 0" by (auto simp: rank_occurrences_def split: if_splits)
  from evaluate_hand_one_pair [OF v 1 2 3 4 5] show ?thesis by blast
qed

text \<open>
  Claim C6 says that a hand with exactly one pair (and nothing higher) is reported at
  level 1 with the paired rank as \<open>highest_card\<close>. On the hand A-hearts 2-spades with
  the board 2-diamonds 5-clubs 9-hearts the only pair is the pair of twos (rank 0), and
  \<open>evaluate_hand\<close> returns level 1 with \<open>highest_card = 12\<close>: the pair loop compares the
  paired rank with the initial \<open>highest_card\<close>, the rank of the highest card of all.
\<close>

theorem one_pair_reports_rank_of_kicker:
  "evaluate_hand [\<lparr>rank = 12, suit = 0\<rparr>, \<lparr>rank = 0, suit = 3\<rparr>]
     [\<lparr>rank = 0, suit = 1\<rparr>, \<lparr>rank = 3, suit = 2\<rparr>, \<lparr>rank = 7, suit = 0\<rparr>]
   = Inr \<lparr>combination_level = 1, highest_card = 12, second_highest_card = 0\<rparr>"
  by code_simp

text \<open>
  Claim C7 says that \<open>second_highest_card\<close> is \<open>-1\<close> unless the level is 2 or 7. On the
  hand K-clubs K-diamonds with the board 2-spades 5-hearts 9-diamonds the level is 1
  and \<open>second_highest_card\<close> is 11: the loop over the ranks stores every paired rank
  there, and no later branch resets it.
\<close>

theorem one_pair_keeps_second_highest_card:
  "evaluate_hand [\<lparr>rank = 11, suit = 2\<rparr>, \<lparr>rank = 11, suit = 1\<rparr>]
     [\<lparr>rank = 0, suit = 3\<rparr>, \<lparr>rank = 3, suit = 0\<rparr>, \<lparr>rank = 7, suit = 1\<rparr>]
   = Inr \<lparr>combination_level = 1, highest_card = 11, second_highest_card = 11\<rparr>"
  by code_simp

section \<open>The comparator\<close>

lemma positional_fallback_first_read:
  "positional_fallback hand1 hand2 community_cards (HAND_SIZE + length community_cards) =
     Inl (OutOfBounds CommunityArray (int (length community_cards) + 1))"
  by (simp add: HAND_SIZE_def)

text \<open>
  The loop of the fallback by itself, on arrays long enough for its reads, does not
  answer true in both directions; the defect is its starting index.
\<close>

lemma positional_fallback_antisym:
  "positional_fallback h1 h2 c n = Inr True \<Longrightarrow> positional_fallback h2 h1 c n \<noteq> Inr True"
proof (induction n)
  case 0
  then show ?case by simp
next
  case (Suc n)
  then show ?case
    by (cases "n < length c"; cases "n < length h1"; cases "n < length h2")
       (auto split: if_splits)
qed

text \<open>
  A comparison that is decided by the level, by \<open>highest_card\<close> or by
  \<open>second_highest_card\<close> is decided the other way for the swapped hands: when
  \<open>is_hand_better\<close> returns true, the call with the hands swapped returns false.
\<close>

lemma is_hand_better_decided:
  assumes "is_hand_better hand1 hand2 community_cards = Inr True"
  shows "is_hand_better hand2 hand1 community_cards = Inr False"
proof -
  from assms obtain e1 e2 where e: "evaluate_hand hand1 community_cards = Inr e1"
      "evaluate_hand hand2 community_cards = Inr e2"
    by (auto simp: is_hand_better_def and_then_eq_Inr)
  from assms show ?thesis
    unfolding is_hand_better_def e and_then_Inr positional_fallback_first_read
    by (simp split: if_splits)
qed

text \<open>
  Claim C10 says that every array access of \<open>is_hand_better\<close> stays within bounds. Two
  high-card hands with the same highest card, A-spades K-hearts and A-hearts Q-diamonds
  on the board 2-clubs 7-diamonds 9-spades, reach the positional fallback, whose first
  iteration has \<open>i = HAND_SIZE + community_size - 1 = 4\<close> and reads
  \<^verbatim>\<open>community_cards[4]\<close> of a community of 3 cards.
\<close>

theorem is_hand_better_reads_out_of_bounds:
  "is_hand_better [\<lparr>rank = 12, suit = 3\<rparr>, \<lparr>rank = 11, suit = 0\<rparr>]
     [\<lparr>rank = 12, suit = 0\<rparr>, \<lparr>rank = 10, suit = 1\<rparr>]
     [\<lparr>rank = 0, suit = 2\<rparr>, \<lparr>rank = 5, suit = 1\<rparr>, \<lparr>rank = 7, suit = 3\<rparr>]
   = Inl (OutOfBounds CommunityArray 4)"
  by code_simp

text \<open>
  Whenever two hands agree on level and \<open>highest_card\<close> and neither has a
  \<open>second_highest_card\<close>, the comparison ends in the out-of-bounds read.
\<close>

lemma is_hand_better_fallback:
  assumes "evaluate_hand hand1 community_cards = Inr e1"
    and "evaluate_hand hand2 community_cards = Inr e2"
    and "combination_level e1 = combination_level e2" and "highest_card e1 = highest_card e2"
    and "second_highest_card e1 = -1" and "second_highest_card e2 = -1"
  shows "is_hand_better hand1 hand2 community_cards
           = Inl (OutOfBounds CommunityArray (int (length community_cards) + 1))"
  by (simp add: is_hand_better_def assms positional_fallback_first_read)

text \<open>
  Claim C8 says that \<open>is_hand_better\<close> is never true in both directions. The hands
  A-spades K-hearts and A-hearts Q-diamonds on the board 2-clubs 7-diamonds 9-spades
  4-hearts J-clubs both evaluate to level 0 with \<open>highest_card = 12\<close> and no
  \<open>second_highest_card\<close>, so either call runs the positional fallback, which starts
  at \<open>i = HAND_SIZE + community_size - 1 = 6\<close> and reads \<^verbatim>\<open>community_cards[6]\<close>,
  \<^verbatim>\<open>hand1[6]\<close> and \<^verbatim>\<open>hand2[6]\<close>. In both directions the answer is taken from
  outside the arrays: the arguments do not determine it, and nothing keeps the two
  calls from both answering true.
\<close>

theorem is_hand_better_tie_reads_outside_both_ways:
  "is_hand_better [\<lparr>rank = 12, suit = 3\<rparr>, \<lparr>rank = 11, suit = 0\<rparr>]
     [\<lparr>rank = 12, suit = 0\<rparr>, \<lparr>rank = 10, suit = 1\<rparr>]
     [\<lparr>rank = 0, suit = 2\<rparr>, \<lparr>rank = 5, suit = 1\<rparr>, \<lparr>rank = 7, suit = 3\<rparr>,
      \<lparr>rank = 2, suit = 0\<rparr>, \<lparr>rank = 9, suit = 2\<rparr>]
     = Inl (OutOfBounds CommunityArray 6)
   \<and> is_hand_better [\<lparr>rank = 12, suit = 0\<rparr>, \<lparr>rank = 10, suit = 1\<rparr>]
     [\<lparr>rank = 12, suit = 3\<rparr>, \<lparr>rank = 11, suit = 0\<rparr>]
     [\<lparr>rank = 0, suit = 2\<rparr>, \<lparr>rank = 5, suit = 1\<rparr>, \<lparr>rank = 7, suit = 3\<rparr>,
      \<lparr>rank = 2, suit = 0\<rparr>, \<lparr>rank = 9, suit = 2\<rparr>]
     = Inl (OutOfBounds CommunityArray 6)
   \<and> evaluate_hand [\<lparr>rank = 12, suit = 3\<rparr>, \<lparr>rank = 11, suit = 0\<rparr>]
     [\<lparr>rank = 0, suit = 2\<rparr>, \<lparr>rank = 5, suit = 1\<rparr>, \<lparr>rank = 7, suit = 3\<rparr>,
      \<lparr>rank = 2, suit = 0\<rparr>, \<lparr>rank = 9, suit = 2\<rparr>]
     = Inr \<lparr>combination_level = 0, highest_card = 12, second_highest_card = - 1\<rparr>
   \<and> evaluate_hand [\<lparr>rank = 12, suit = 0\<rparr>, \<lparr>rank = 10, suit = 1\<rparr>]
     [\<lparr>rank = 0, suit = 2\<rparr>, \<lparr>rank = 5, suit = 1\<rparr>, \<lparr>rank = 7, suit = 3\<rparr>,
      \<lparr>rank = 2, suit = 0\<rparr>, \<lparr>rank = 9, suit = 2\<rparr>]
     = Inr \<lparr>combination_level = 0, highest_card = 12, second_highest_card = - 1\<rparr>"
  by code_simp

subsection \<open>The winning opponent\<close>

text \<open>
  What \<open>find_winning_opponent\<close> returns when every hand evaluates: \<open>-1\<close> exactly when no
  opponent beats the player in the three-level comparison, and otherwise the index of
  the last opponent that beats the player.
\<close>

lemma opponent_scan_step:
  assumes "evaluate_hand h community_cards = Inr e"
  shows "opponent_scan player_eval (h # hs) community_cards i (w, pw) =
     opponent_scan player_eval hs community_cards (i + 1)
       (if beats e player_eval then (int i, False) else (w, pw))"
  using assms by (auto simp: beats_def)

lemma opponent_scan_result:
  assumes "list_all2 (\<lambda>h e. evaluate_hand h community_cards = Inr e) hs es"
  shows "\<exists>w' pw'. opponent_scan player_eval hs community_cards i (w, pw) = Inr (w', pw')
     \<and> (pw' \<longleftrightarrow> pw \<and> (\<forall>e\<in>set es. \<not> beats e player_eval))
     \<and> ((\<forall>e\<in>set es. \<not> beats e player_eval) \<longrightarrow> w' = w)
     \<and> ((\<exists>e\<in>set es. beats e player_eval) \<longrightarrow>
          (\<exists>k<length es. w' = int (i + k) \<and> beats (es ! k) player_eval
             \<and> (\<forall>j. k < j \<and> j < length es \<longrightarrow> \<not> beats (es ! j) player_eval)))"
  using assms
proof (induction hs es arbitrary: i w pw rule: list_all2_induct)
  case Nil
  show ?case by simp
next
  case (Cons h hs e es)
  let ?st = "if beats e player_eval then (int i, False) else (w, pw)"
  from Cons.IH [of "i + 1" "fst ?st" "snd ?st"] obtain w' pw' where
    r: "opponent_scan player_eval hs community_cards (i + 1) ?st = Inr (w', pw')"
      "pw' \<longleftrightarrow> snd ?st \<and> (\<forall>e\<in>set es. \<not> beats e player_eval)"
      "(\<forall>e\<in>set es. \<not> beats e player_eval) \<longrightarrow> w' = fst ?st"
      "(\<exists>e\<in>set es. beats e player_eval) \<longrightarrow>
          (\<exists>k<length es. w' = int (i + 1 + k) \<and> beats (es ! k) player_eval
             \<and> (\<forall>j. k < j \<and> j < length es \<longrightarrow> \<not> beats (es ! j) player_eval))"
    by auto
  have step: "opponent_scan player_eval (h # hs) community_cards i (w, pw) = Inr (w', pw')"
    using opponent_scan_step [OF Cons.hyps(1)] r(1) by simp
  have last: "\<exists>k<length (e # es). w' = int (i + k) \<and> beats ((e # es) ! k) player_eval
             \<and> (\<forall>j. k < j \<and> j < length (e # es) \<longrightarrow> \<not> beats ((e # es) ! j) player_eval)"
    if ex: "\<exists>x\<in>set (e # es). beats x player_eval"
  proof (cases "\<exists>x\<in>set es. beats x player_eval")
    case True
    with r(4) obtain k where k: "k < length es" "w' = int (i + 1 + k)" "beats (es ! k) player_eval"
      "\<forall>j. k < j \<and> j < length es \<longrightarrow> \<not> beats (es ! j) player_eval" by blast
    have "\<forall>j. Suc k < j \<and> j < length (e # es) \<longrightarrow> \<not> beats ((e # es) ! j) player_eval"
    proof (intro allI impI)
      fix j assume j: "Suc k < j \<and> j < length (e # es)"
      then obtain j' where "j = Suc j'" by (cases j) auto
      with j k(4) show "\<not> beats ((e # es) ! j) player_eval" by simp
    qed
    with k(1-3) show ?thesis by (intro exI [of _ "Suc k"]) simp
  next
    case False
    with ex have b: "beats e player_eval" by simp
    with False r(3) have "w' = int i" by simp
    moreover have "\<forall>j. 0 < j \<and> j < length (e # es) \<longrightarrow> \<not> beats ((e # es) ! j) player_eval"
    proof (intro allI impI)
      fix j assume j: "0 < j \<and> j < length (e # es)"
      then obtain j' where "j = Suc j'" by (cases j) auto
      with j False show "\<not> beats ((e # es) ! j) player_eval" by auto
    qed
    ultimately show ?thesis using b by (intro exI [of _ 0]) simp
  qed
  have "pw' \<longleftrightarrow> pw \<and> (\<forall>x\<in>set (e # es). \<not> beats x player_eval)" using r(2) by auto
  moreover have "(\<forall>x\<in>set (e # es). \<not> beats x player_eval) \<longrightarrow> w' = w" using r(3) by auto
  ultimately show ?case using step last by blast
qed

lemma find_winning_opponent_result:
  assumes "evaluate_hand player_hand community_cards = Inr player_eval"
    and "list_all2 (\<lambda>h e. evaluate_hand h community_cards = Inr e) opponent_hands es"
  shows "\<exists>w. find_winning_opponent player_hand opponent_hands community_cards = Inr w
     \<and> (w = -1 \<longleftrightarrow> (\<forall>e\<in>set es. \<not> beats e player_eval))
     \<and> (w \<noteq> -1 \<longrightarrow> 0 \<le> w \<and> nat w < length es \<and> beats (es ! nat w) player_eval
          \<and> (\<forall>j. nat w < j \<and> j < length es \<longrightarrow> \<not> beats (es ! j) player_eval))"
proof -
  from opponent_scan_result [OF assms(2), of player_eval 0 "-1" True] obtain w' pw' where
    r: "opponent_scan player_eval opponent_hands community_cards 0 (-1, True) = Inr (w', pw')"
      "pw' \<longleftrightarrow> (\<forall>e\<in>set es. \<not> beats e player_eval)"
      "(\<exists>e\<in>set es. beats e player_eval) \<longrightarrow>
          (\<exists>k<length es. w' = int k \<and> beats (es ! k) player_eval
             \<and> (\<forall>j. k < j \<and> j < length es \<longrightarrow> \<not> beats (es ! j) player_eval))"
    by auto
  have f: "find_winning_opponent player_hand opponent_hands community_cards
       = Inr (if pw' then -1 else w')"
    by (simp add: find_winning_opponent_def assms(1) r(1))
  show ?thesis
  proof (cases pw')
    case True
    with f r(2) show ?thesis by simp
  next
    case False
    with r(2,3) obtain k where k: "k < length es" "w' = int k" "beats (es ! k) player_eval"
      "\<forall>j. k < j \<and> j < length es \<longrightarrow> \<not> beats (es ! j) player_eval" by blast
    with f False r(2) show ?thesis by simp
  qed
qed

text \<open>
  Claim C2 says that \<open>find_winning_opponent\<close> returns the index of the best opponent
  among those that beat the player. On the board 7-clubs 9-spades J-hearts K-diamonds
  4-spades the player 2-hearts 3-diamonds has a high card (level 0, rank 11), opponent 0
  with A-spades A-hearts has a pair of aces (level 1) and opponent 1 with A-diamonds
  5-clubs has a high card (level 0, rank 12). Both beat the player, opponent 0 is the
  best, and the function returns 1, the last opponent that beats the player.
\<close>

theorem find_winning_opponent_returns_last:
  "find_winning_opponent [\<lparr>rank = 0, suit = 0\<rparr>, \<lparr>rank = 1, suit = 1\<rparr>]
     [[\<lparr>rank = 12, suit = 3\<rparr>, \<lparr>rank = 12, suit = 0\<rparr>],
      [\<lparr>rank = 12, suit = 1\<rparr>, \<lparr>rank = 3, suit = 2\<rparr>]]
     [\<lparr>rank = 5, suit = 2\<rparr>, \<lparr>rank = 7, suit = 3\<rparr>, \<lparr>rank = 9, suit = 0\<rparr>, \<lparr>rank = 11, suit = 1\<rparr>, \<lparr>rank = 2, suit = 3\<rparr>] = Inr 1
   \<and> evaluate_hand [\<lparr>rank = 0, suit = 0\<rparr>, \<lparr>rank = 1, suit = 1\<rparr>]
     [\<lparr>rank = 5, suit = 2\<rparr>, \<lparr>rank = 7, suit = 3\<rparr>, \<lparr>rank = 9, suit = 0\<rparr>, \<lparr>rank = 11, suit = 1\<rparr>, \<lparr>rank = 2, suit = 3\<rparr>]
     = Inr \<lparr>combination_level = 0, highest_card = 11, second_highest_card = - 1\<rparr>
   \<and> evaluate_hand [\<lparr>rank = 12, suit = 3\<rparr>, \<lparr>rank = 12, suit = 0\<rparr>]
     [\<lparr>rank = 5, suit = 2\<rparr>, \<lparr>rank = 7, suit = 3\<rparr>, \<lparr>rank = 9, suit = 0\<rparr>, \<lparr>rank = 11, suit = 1\<rparr>, \<lparr>rank = 2, suit = 3\<rparr>]
     = Inr \<lparr>combination_level = 1, highest_card = 12, second_highest_card = 12\<rparr>
   \<and> evaluate_hand [\<lparr>rank = 12, suit = 1\<rparr>, \<lparr>rank = 3, suit = 2\<rparr>]
     [\<lparr>rank = 5, suit = 2\<rparr>, \<lparr>rank = 7, suit = 3\<rparr>, \<lparr>rank = 9, suit = 0\<rparr>, \<lparr>rank = 11, suit = 1\<rparr>, \<lparr>rank = 2, suit = 3\<rparr>]
     = Inr \<lparr>combination_level = 0, highest_card = 12, second_highest_card = - 1\<rparr>"
  by code_simp

section \<open>The simulation\<close>

subsection \<open>The deck\<close>

lemma length_initialize_deck: "length initialize_deck = NUM_CARDS"
  by (simp add: initialize_deck_def length_concat comp_def sum_list_triv
        NUM_CARDS_def NUM_RANKS_def NUM_SUITS_def)

lemma valid_initialize_deck: "c \<in> set initialize_deck \<Longrightarrow> valid_card c"
  by (auto simp: initialize_deck_def valid_card_def)

lemma shuffle_loop_length: "length (fst (shuffle_loop rand calls k deck)) = length deck"
  by (induction k arbitrary: calls deck) (simp_all add: Let_def)

lemma shuffle_loop_calls: "snd (shuffle_loop rand calls k deck) = calls + k"
  by (induction k arbitrary: calls deck) (simp_all add: Let_def)

lemma shuffle_loop_set:
  "k < length deck \<Longrightarrow> set (fst (shuffle_loop rand calls k deck)) = set deck"
proof (induction k arbitrary: calls deck)
  case 0
  then show ?case by simp
next
  case (Suc k)
  let ?j = "rand calls mod (Suc k + 1)"
  let ?deck = "deck[Suc k := deck ! ?j, ?j := deck ! Suc k]"
  have "?j < Suc k + 1" by (rule mod_less_divisor) simp
  with Suc.prems have j: "?j < length deck" by linarith
  have "set ?deck = set deck" using Suc.prems j by (rule set_swap)
  moreover have "set (fst (shuffle_loop rand (calls + 1) k ?deck)) = set ?deck"
    using Suc.prems by (intro Suc.IH) simp
  ultimately show ?case by (simp add: Let_def)
qed

lemma shuffle_deck_result:
  "\<exists>deck. shuffle_deck rand calls initialize_deck = (deck, calls + 51)
     \<and> length deck = NUM_CARDS \<and> (\<forall>c\<in>set deck. valid_card c)"
proof -
  let ?r = "shuffle_loop rand calls (NUM_CARDS - 1) initialize_deck"
  have "length (fst ?r) = NUM_CARDS" by (simp add: shuffle_loop_length length_initialize_deck)
  moreover have "set (fst ?r) = set initialize_deck"
    by (rule shuffle_loop_set) (simp add: length_initialize_deck NUM_CARDS_def)
  moreover have "snd ?r = calls + 51" by (simp add: shuffle_loop_calls NUM_CARDS_def)
  ultimately show ?thesis
    unfolding shuffle_deck_def by (cases ?r) (auto simp: valid_initialize_deck)
qed


subsection \<open>Marking and dealing\<close>

lemma filter_update_le: "length (filter Q (xs[i := y])) \<le> Suc (length (filter Q xs))"
  by (induction xs arbitrary: i) (auto split: nat.splits)

lemma mark_unavailable_ok:
  assumes "\<forall>c\<in>set cs. valid_card c" and "length deck = NUM_CARDS"
    and "\<forall>c\<in>set deck. -1 \<le> rank c \<and> rank c < int NUM_RANKS \<and> 0 \<le> suit c \<and> suit c < int NUM_SUITS"
  shows "\<exists>deck'. mark_unavailable cs deck = Inr deck' \<and> length deck' = NUM_CARDS
     \<and> length (filter (\<lambda>c. rank c = -1) deck') \<le> length (filter (\<lambda>c. rank c = -1) deck) + length cs
     \<and> (\<forall>c\<in>set deck'. -1 \<le> rank c \<and> rank c < int NUM_RANKS \<and> 0 \<le> suit c \<and> suit c < int NUM_SUITS)"
  using assms
proof (induction cs arbitrary: deck)
  case Nil
  then show ?case by simp
next
  case (Cons c cs)
  let ?idx = "rank c * int NUM_SUITS + suit c"
  let ?deck = "deck[nat ?idx := (deck ! nat ?idx)\<lparr>rank := -1\<rparr>]"
  from Cons.prems(1) have "valid_card c" by simp
  then have idx: "0 \<le> ?idx" "?idx < int (length deck)"
    using Cons.prems(2) by (simp_all add: valid_card_def NUM_CARDS_def NUM_RANKS_def NUM_SUITS_def)
  then have n: "nat ?idx < length deck" by simp
  have 1: "\<forall>c\<in>set cs. valid_card c" using Cons.prems(1) by simp
  have 2: "length ?deck = NUM_CARDS" using Cons.prems(2) by simp
  have 3: "\<forall>c\<in>set ?deck. -1 \<le> rank c \<and> rank c < int NUM_RANKS \<and> 0 \<le> suit c \<and> suit c < int NUM_SUITS"
  proof
    fix d assume "d \<in> set ?deck"
    then have "d = (deck ! nat ?idx)\<lparr>rank := -1\<rparr> \<or> d \<in> set deck"
      using set_update_subset_insert [of deck "nat ?idx"] by auto
    moreover have "deck ! nat ?idx \<in> set deck" using n by (rule nth_mem)
    ultimately show "-1 \<le> rank d \<and> rank d < int NUM_RANKS \<and> 0 \<le> suit d \<and> suit d < int NUM_SUITS"
      using Cons.prems(3) by (auto simp: NUM_RANKS_def)
  qed
  from Cons.IH [OF 1 2 3] obtain deck' where
    d: "mark_unavailable cs ?deck = Inr deck'" "length deck' = NUM_CARDS"
      "length (filter (\<lambda>c. rank c = -1) deck') \<le> length (filter (\<lambda>c. rank c = -1) ?deck) + length cs"
      "\<forall>c\<in>set deck'. -1 \<le> rank c \<and> rank c < int NUM_RANKS \<and> 0 \<le> suit c \<and> suit c < int NUM_SUITS"
    by blast
  have "mark_unavailable (c # cs) deck = Inr deck'"
    using idx d(1) by (simp add: Let_def)
  moreover have "length (filter (\<lambda>c. rank c = -1) deck') \<le> length (filter (\<lambda>c. rank c = -1) deck) + length (c # cs)"
    using d(3) filter_update_le [of "\<lambda>c. rank c = -1" deck "nat ?idx" "(deck ! nat ?idx)\<lparr>rank := -1\<rparr>"]
    by simp
  ultimately show ?case using d(2,4) by blast
qed

lemma deal_one_ok:
  "current_card + length (filter (\<lambda>c. rank c = -1) (drop current_card deck)) < length deck \<Longrightarrow>
   \<exists>c cur'. deal_one deck current_card = Inr (c, cur') \<and> c \<in> set deck \<and> rank c \<noteq> -1
     \<and> cur' + length (filter (\<lambda>c. rank c = -1) (drop cur' deck))
         = current_card + length (filter (\<lambda>c. rank c = -1) (drop current_card deck)) + 1"
proof (induction deck current_card rule: deal_one.induct)
  case (1 deck current_card)
  from "1.prems" have lt: "current_card < length deck" by simp
  then have drop: "drop current_card deck = deck ! current_card # drop (current_card + 1) deck"
    by (simp add: Cons_nth_drop_Suc)
  show ?case
  proof (cases "rank (deck ! current_card) = -1")
    case True
    with "1.prems" drop have
      "current_card + 1 + length (filter (\<lambda>c. rank c = -1) (drop (current_card + 1) deck)) < length deck"
      by simp
    from "1.IH" [OF lt True this] True lt drop show ?thesis
      by (subst deal_one.simps) simp
  next
    case False
    with lt drop show ?thesis
      by (subst deal_one.simps) simp
  qed
qed

lemma deal_hand_ok:
  assumes "current_card + length (filter (\<lambda>c. rank c = -1) (drop current_card deck)) + 2 \<le> length deck"
  shows "\<exists>h cur'. deal_hand deck current_card = Inr (h, cur') \<and> length h = 2
     \<and> (\<forall>c\<in>set h. c \<in> set deck \<and> rank c \<noteq> -1)
     \<and> cur' + length (filter (\<lambda>c. rank c = -1) (drop cur' deck))
         = current_card + length (filter (\<lambda>c. rank c = -1) (drop current_card deck)) + 2"
proof -
  from assms have "current_card + length (filter (\<lambda>c. rank c = -1) (drop current_card deck)) < length deck"
    by simp
  from deal_one_ok [OF this] obtain c0 cur1 where
    a: "deal_one deck current_card = Inr (c0, cur1)" "c0 \<in> set deck" "rank c0 \<noteq> -1"
      "cur1 + length (filter (\<lambda>c. rank c = -1) (drop cur1 deck))
         = current_card + length (filter (\<lambda>c. rank c = -1) (drop current_card deck)) + 1"
    by blast
  with assms have "cur1 + length (filter (\<lambda>c. rank c = -1) (drop cur1 deck)) < length deck"
    by simp
  from deal_one_ok [OF this] obtain c1 cur2 where
    b: "deal_one deck cur1 = Inr (c1, cur2)" "c1 \<in> set deck" "rank c1 \<noteq> -1"
      "cur2 + length (filter (\<lambda>c. rank c = -1) (drop cur2 deck))
         = cur1 + length (filter (\<lambda>c. rank c = -1) (drop cur1 deck)) + 1"
    by blast
  have "deal_hand deck current_card = Inr ([c0, c1], cur2)"
    by (simp add: deal_hand_def a(1) b(1))
  with a b show ?thesis by simp
qed

lemma deal_opponents_ok:
  "current_card + length (filter (\<lambda>c. rank c = -1) (drop current_card deck)) + 2 * k \<le> length deck \<Longrightarrow>
   \<exists>hs cur'. deal_opponents deck current_card k = Inr (hs, cur') \<and> length hs = k
     \<and> (\<forall>h\<in>set hs. length h = 2 \<and> (\<forall>c\<in>set h. c \<in> set deck \<and> rank c \<noteq> -1))
     \<and> cur' + length (filter (\<lambda>c. rank c = -1) (drop cur' deck))
         = current_card + length (filter (\<lambda>c. rank c = -1) (drop current_card deck)) + 2 * k"
proof (induction k arbitrary: current_card)
  case 0
  then show ?case by simp
next
  case (Suc k)
  from Suc.prems have
    "current_card + length (filter (\<lambda>c. rank c = -1) (drop current_card deck)) + 2 \<le> length deck"
    by simp
  from deal_hand_ok [OF this] obtain h cur1 where
    a: "deal_hand deck current_card = Inr (h, cur1)" "length h = 2"
      "\<forall>c\<in>set h. c \<in> set deck \<and> rank c \<noteq> -1"
      "cur1 + length (filter (\<lambda>c. rank c = -1) (drop cur1 deck))
         = current_card + length (filter (\<lambda>c. rank c = -1) (drop current_card deck)) + 2"
    by blast
  with Suc.prems have "cur1 + length (filter (\<lambda>c. rank c = -1) (drop cur1 deck)) + 2 * k \<le> length deck"
    by simp
  from Suc.IH [OF this] obtain hs cur2 where
    b: "deal_opponents deck cur1 k = Inr (hs, cur2)" "length hs = k"
      "\<forall>h\<in>set hs. length h = 2 \<and> (\<forall>c\<in>set h. c \<in> set deck \<and> rank c \<noteq> -1)"
      "cur2 + length (filter (\<lambda>c. rank c = -1) (drop cur2 deck))
         = cur1 + length (filter (\<lambda>c. rank c = -1) (drop cur1 deck)) + 2 * k"
    by blast
  have "deal_opponents deck current_card (Suc k) = Inr (h # hs, cur2)"
    by (simp add: a(1) b(1))
  with a b show ?case by simp
qed


lemma trial_deal_ok:
  assumes len: "length player_hand = HAND_SIZE" and comm: "length community_cards \<le> 5"
    and ok: "list_all valid_card (player_hand @ community_cards)" and np: "num_players \<le> 6"
  shows "\<exists>opponent_hands current_card.
     trial_deal rand calls player_hand community_cards num_players
       = Inr (opponent_hands, current_card, calls + 51)
     \<and> current_card \<le> 2 * (num_players - 1) + (2 + length community_cards)
     \<and> length opponent_hands = num_players - 1
     \<and> (\<forall>h\<in>set opponent_hands. length h = HAND_SIZE \<and> list_all valid_card h)"
proof -
  let ?marked = "\<lambda>deck. length (filter (\<lambda>c. rank c = -1) deck)"
  let ?range = "\<lambda>deck. \<forall>c\<in>set deck. -1 \<le> rank c \<and> rank c < int NUM_RANKS
                    \<and> 0 \<le> suit c \<and> suit c < int NUM_SUITS"
  from len obtain p0 p1 where hand: "player_hand = [p0, p1]"
    by (auto simp: HAND_SIZE_def length_Suc_conv numeral_2_eq_2)
  from shuffle_deck_result [of rand calls] obtain deck where
    sh: "shuffle_deck rand calls initialize_deck = (deck, calls + 51)"
    and dl: "length deck = NUM_CARDS" and dv: "\<forall>c\<in>set deck. valid_card c"
    by blast
  from dv have r0: "?range deck" by (auto simp: valid_card_def)
  from dv have "filter (\<lambda>c. rank c = -1) deck = []"
    by (auto simp: filter_empty_conv valid_card_def)
  then have m0: "?marked deck = 0" by simp
  have "\<forall>c\<in>set [p0, p1]. valid_card c" using ok by (simp add: hand)
  from mark_unavailable_ok [OF this dl r0] m0 obtain deck1 where
    d1: "mark_unavailable [p0, p1] deck = Inr deck1" "length deck1 = NUM_CARDS"
      "?marked deck1 \<le> 2" "?range deck1"
    by auto
  have "\<forall>c\<in>set community_cards. valid_card c" using ok by (simp add: list_all_iff)
  from mark_unavailable_ok [OF this d1(2) d1(4)] d1(3) obtain deck2 where
    d2: "mark_unavailable community_cards deck1 = Inr deck2" "length deck2 = NUM_CARDS"
      "?marked deck2 \<le> 2 + length community_cards" "?range deck2"
    by fastforce
  have "0 + ?marked (drop 0 deck2) + 2 * (num_players - 1) \<le> length deck2"
    using d2(2,3) comm np by (simp add: NUM_CARDS_def)
  from deal_opponents_ok [OF this] obtain hs cur where
    dealt: "deal_opponents deck2 0 (num_players - 1) = Inr (hs, cur)" "length hs = num_players - 1"
      "\<forall>h\<in>set hs. length h = 2 \<and> (\<forall>c\<in>set h. c \<in> set deck2 \<and> rank c \<noteq> -1)"
      "cur + ?marked (drop cur deck2) = 0 + ?marked (drop 0 deck2) + 2 * (num_players - 1)"
    by blast
  have "trial_deal rand calls player_hand community_cards num_players = Inr (hs, cur, calls + 51)"
    using dealt(1) by (simp add: trial_deal_def sh hand d1(1) d2(1) del: mark_unavailable.simps)
  moreover have "cur \<le> 2 * (num_players - 1) + (2 + length community_cards)"
    using dealt(4) d2(3) by simp
  moreover have "\<forall>h\<in>set hs. length h = HAND_SIZE \<and> list_all valid_card h"
  proof
    fix h assume "h \<in> set hs"
    with dealt(3) have h: "length h = 2" "\<forall>c\<in>set h. c \<in> set deck2 \<and> rank c \<noteq> -1" by auto
    from h(2) d2(4) have "\<forall>c\<in>set h. valid_card c" by (fastforce simp: valid_card_def)
    with h(1) show "length h = HAND_SIZE \<and> list_all valid_card h"
      by (simp add: HAND_SIZE_def list_all_iff)
  qed
  ultimately show ?thesis using dealt(2) by blast
qed

text \<open>
  Claim C9. In every trial, for every random stream, 2 to 6 players and a valid hand
  with at most 5 community cards, the dealing of the opponents returns (no read of the
  deck outside its 52 positions) with \<open>current_card\<close> at most 17.
\<close>

theorem deal_reads_at_most_17:
  assumes "valid_cards player_hand community_cards" and "2 \<le> num_players" and "num_players \<le> 6"
  shows "\<exists>opponent_hands current_card calls'.
     trial_deal rand calls player_hand community_cards num_players
       = Inr (opponent_hands, current_card, calls')
     \<and> length opponent_hands = num_players - 1
     \<and> current_card \<le> 17 \<and> current_card < NUM_CARDS"
proof -
  from assms(1) have "length player_hand = HAND_SIZE" "length community_cards \<le> 5"
      "list_all valid_card (player_hand @ community_cards)"
    by (simp_all add: valid_cards_def)
  from trial_deal_ok [OF this assms(3), of rand calls] obtain hs cur where
    t: "trial_deal rand calls player_hand community_cards num_players = Inr (hs, cur, calls + 51)"
      "cur \<le> 2 * (num_players - 1) + (2 + length community_cards)"
      "length hs = num_players - 1"
    by blast
  from t(2) assms(3) \<open>length community_cards \<le> 5\<close> have "cur \<le> 17" by simp
  with t(1,3) show ?thesis by (simp add: NUM_CARDS_def)
qed

theorem deal_reads_at_most_17_witness:
  "valid_cards [\<lparr>rank = 0, suit = 1\<rparr>, \<lparr>rank = 0, suit = 2\<rparr>]
     [\<lparr>rank = 1, suit = 0\<rparr>, \<lparr>rank = 1, suit = 1\<rparr>, \<lparr>rank = 1, suit = 2\<rparr>, \<lparr>rank = 1, suit = 3\<rparr>, \<lparr>rank = 2, suit = 0\<rparr>]
   \<and> (2::nat) \<le> 6 \<and> (6::nat) \<le> 6
   \<and> (\<exists>opponent_hands current_card calls'.
        trial_deal (\<lambda>n. 0) 0 [\<lparr>rank = 0, suit = 1\<rparr>, \<lparr>rank = 0, suit = 2\<rparr>]
          [\<lparr>rank = 1, suit = 0\<rparr>, \<lparr>rank = 1, suit = 1\<rparr>, \<lparr>rank = 1, suit = 2\<rparr>, \<lparr>rank = 1, suit = 3\<rparr>, \<lparr>rank = 2, suit = 0\<rparr>] 6
          = Inr (opponent_hands, current_card, calls')
        \<and> length opponent_hands = 6 - 1
        \<and> current_card \<le> 17 \<and> current_card < NUM_CARDS)"
proof -
  have v: "valid_cards [\<lparr>rank = 0, suit = 1\<rparr>, \<lparr>rank = 0, suit = 2\<rparr>]
     [\<lparr>rank = 1, suit = 0\<rparr>, \<lparr>rank = 1, suit = 1\<rparr>, \<lparr>rank = 1, suit = 2\<rparr>, \<lparr>rank = 1, suit = 3\<rparr>, \<lparr>rank = 2, suit = 0\<rparr>]"
    by (simp add: valid_cards_def valid_card_def HAND_SIZE_def NUM_RANKS_def NUM_SUITS_def)
  have a: "(2::nat) \<le> 6" and b: "(6::nat) \<le> 6" by simp_all
  from deal_reads_at_most_17 [OF v a b, of "\<lambda>n. 0" 0] v show ?thesis by simp
qed

text \<open>The bound is attained: with these cards and this stream the cursor ends at 17.\<close>

lemma deal_reads_17_attained:
  "trial_deal (\<lambda>n. 0) 0 [\<lparr>rank = 0, suit = 1\<rparr>, \<lparr>rank = 0, suit = 2\<rparr>]
     [\<lparr>rank = 1, suit = 0\<rparr>, \<lparr>rank = 1, suit = 1\<rparr>, \<lparr>rank = 1, suit = 2\<rparr>, \<lparr>rank = 1, suit = 3\<rparr>, \<lparr>rank = 2, suit = 0\<rparr>] 6
   = Inr ([[\<lparr>rank = 0, suit = 1\<rparr>, \<lparr>rank = 1, suit = 0\<rparr>],
           [\<lparr>rank = 2, suit = 2\<rparr>, \<lparr>rank = 2, suit = 3\<rparr>],
           [\<lparr>rank = 3, suit = 0\<rparr>, \<lparr>rank = 3, suit = 1\<rparr>],
           [\<lparr>rank = 3, suit = 2\<rparr>, \<lparr>rank = 3, suit = 3\<rparr>],
           [\<lparr>rank = 4, suit = 0\<rparr>, \<lparr>rank = 4, suit = 1\<rparr>]], 17, 51)"
  by code_simp

text \<open>
  Which positions of the deck are withdrawn depends on the known cards only, not on
  what the shuffle put there.
\<close>

lemma mark_unavailable_positions:
  "mark_unavailable cs deck = Inr deck' \<Longrightarrow> i < length deck \<Longrightarrow>
   deck' ! i = (if int i \<in> (\<lambda>c. rank c * int NUM_SUITS + suit c) ` set cs
                then (deck ! i)\<lparr>rank := -1\<rparr> else deck ! i)"
proof (induction cs arbitrary: deck)
  case Nil
  then show ?case by simp
next
  case (Cons c cs)
  let ?idx = "rank c * int NUM_SUITS + suit c"
  let ?deck = "deck[nat ?idx := (deck ! nat ?idx)\<lparr>rank := -1\<rparr>]"
  from Cons.prems(1) have idx: "0 \<le> ?idx" "?idx < int (length deck)"
    and m: "mark_unavailable cs ?deck = Inr deck'"
    by (simp_all add: Let_def split: if_splits)
  from Cons.prems(2) have "i < length ?deck" by simp
  from Cons.IH [OF m this] idx Cons.prems(2) show ?case
    by (cases "i = nat ?idx") (auto simp: nth_list_update)
qed

text \<open>
  Claim C1 says that no opponent hand of a trial holds a hole card of the player or a
  known community card. The trial marks \<^verbatim>\<open>deck[rank * NUM_SUITS + suit]\<close> after the
  shuffle, where that position holds some other card. With a random source that
  always returns 0 the shuffle moves every card one position down, so for the player
  hand 2-diamonds 2-clubs the marked positions 1 and 2 hold 2-clubs and 2-spades, and
  the opponent is dealt the 2-diamonds from position 0 (and the 3-hearts from
  position 3).
\<close>

theorem opponent_is_dealt_player_card:
  "trial_deal (\<lambda>n. 0) 0 [\<lparr>rank = 0, suit = 1\<rparr>, \<lparr>rank = 0, suit = 2\<rparr>] [] 2
   = Inr ([[\<lparr>rank = 0, suit = 1\<rparr>, \<lparr>rank = 1, suit = 0\<rparr>]], 4, 51)"
  by code_simp

subsection \<open>The trials\<close>

lemma evaluate_hand_ok:
  "length hand = HAND_SIZE \<Longrightarrow> list_all valid_card (hand @ community_cards) \<Longrightarrow>
   \<exists>e. evaluate_hand hand community_cards = Inr e"
  by (simp add: evaluate_hand_counts)

lemma opponent_scan_ok:
  "\<forall>h\<in>set hs. \<exists>e. evaluate_hand h community_cards = Inr e \<Longrightarrow>
   \<exists>st'. opponent_scan player_eval hs community_cards i st = Inr st'"
proof (induction hs arbitrary: i st)
  case Nil
  show ?case by (simp del: split_paired_Ex)
next
  case (Cons h hs)
  obtain w pw where st: "st = (w, pw)" by (cases st)
  from Cons.prems obtain e where e: "evaluate_hand h community_cards = Inr e" by auto
  from Cons.prems have "\<forall>h\<in>set hs. \<exists>e. evaluate_hand h community_cards = Inr e" by simp
  from Cons.IH [OF this] show ?case unfolding st by (simp add: e)
qed

lemma trial_ok:
  assumes len: "length player_hand = HAND_SIZE" and comm: "length community_cards \<le> 5"
    and ok: "list_all valid_card (player_hand @ community_cards)" and np: "num_players \<le> 6"
  shows "\<exists>w. trial rand calls player_hand community_cards num_players = Inr (w, calls + 51)"
proof -
  from trial_deal_ok [OF len comm ok np, of rand calls] obtain hs cur where
    t: "trial_deal rand calls player_hand community_cards num_players = Inr (hs, cur, calls + 51)"
      "\<forall>h\<in>set hs. length h = HAND_SIZE \<and> list_all valid_card h"
    by blast
  from evaluate_hand_ok [OF len ok] obtain pe where
    pe: "evaluate_hand player_hand community_cards = Inr pe" by blast
  have "\<forall>h\<in>set hs. \<exists>e. evaluate_hand h community_cards = Inr e"
  proof
    fix h assume "h \<in> set hs"
    with t(2) have "length h = HAND_SIZE" "list_all valid_card h" by auto
    moreover from ok have "list_all valid_card community_cards" by simp
    ultimately show "\<exists>e. evaluate_hand h community_cards = Inr e"
      by (intro evaluate_hand_ok) simp_all
  qed
  from opponent_scan_ok [OF this] obtain st' where
    "opponent_scan pe hs community_cards 0 (-1, True) = Inr st'" by blast
  then show ?thesis
    by (cases st') (simp add: trial_def t(1) find_winning_opponent_def pe)
qed

lemma run_trials_ok:
  assumes len: "length player_hand = HAND_SIZE" and comm: "length community_cards \<le> 5"
    and ok: "list_all valid_card (player_hand @ community_cards)" and np: "num_players \<le> 6"
  shows "\<exists>wins' losses'.
     run_trials n rand calls player_hand community_cards num_players (wins, ties, losses)
       = Inr (wins', ties, losses')
     \<and> wins \<le> wins' \<and> losses \<le> losses' \<and> wins' + losses' = wins + losses + int n"
proof (induction n arbitrary: calls wins losses)
  case 0
  show ?case by simp
next
  case (Suc n)
  from trial_ok [OF len comm ok np, of rand calls] obtain w where
    w: "trial rand calls player_hand community_cards num_players = Inr (w, calls + 51)" by blast
  show ?case
  proof (cases "w = -1")
    case True
    from Suc.IH [of "calls + 51" "wins + 1" losses] True w show ?thesis by auto
  next
    case False
    from Suc.IH [of "calls + 51" wins "losses + 1"] False w show ?thesis by auto
  qed
qed

lemma c_div_nonneg: "0 \<le> a \<Longrightarrow> 0 < b \<Longrightarrow> c_div a b = Inr (a div b)"
  by (cases "a = 0") (simp_all add: c_div_def)

text \<open>
  Claim C4. For every random stream, every valid hand with at most 5 community cards
  and 2 to 6 players, the simulation runs its 10000 trials without error, the counters
  sum to 10000 (so the division is not by zero), and the result is
  \<open>100 * wins div (wins + losses + ties)\<close>, between 0 and 100.
\<close>

theorem calculate_win_probability_bounds:
  assumes "valid_cards player_hand community_cards" and "2 \<le> num_players" and "num_players \<le> 6"
  shows "\<exists>wins ties losses.
     run_trials MONTE_CARLO_SIMULATIONS rand calls player_hand community_cards num_players (0, 0, 0)
       = Inr (wins, ties, losses)
     \<and> 0 \<le> wins \<and> 0 \<le> losses \<and> ties = 0 \<and> wins + losses + ties = 10000
     \<and> wins * 100 \<le> 1000000
     \<and> calculate_win_probability rand calls player_hand community_cards num_players
         = Inr ((100 * wins) div (wins + losses + ties))
     \<and> 0 \<le> (100 * wins) div (wins + losses + ties)
     \<and> (100 * wins) div (wins + losses + ties) \<le> 100"
proof -
  from assms(1) have "length player_hand = HAND_SIZE" "length community_cards \<le> 5"
      "list_all valid_card (player_hand @ community_cards)"
    by (simp_all add: valid_cards_def)
  from run_trials_ok [OF this assms(3), of MONTE_CARLO_SIMULATIONS rand calls 0 0 0]
  obtain wins losses where
    r: "run_trials MONTE_CARLO_SIMULATIONS rand calls player_hand community_cards num_players (0, 0, 0)
          = Inr (wins, 0, losses)"
      "0 \<le> wins" "0 \<le> losses" "wins + losses = 10000"
    by (auto simp: MONTE_CARLO_SIMULATIONS_def)
  have "calculate_win_probability rand calls player_hand community_cards num_players
          = Inr ((100 * wins) div (wins + losses + 0))"
    using r by (simp add: calculate_win_probability_def c_div_nonneg mult.commute)
  moreover have "0 \<le> (100 * wins) div (wins + losses + 0)" using r by simp
  moreover have "(100 * wins) div (wins + losses + 0) \<le> 100" using r by simp
  ultimately have "run_trials MONTE_CARLO_SIMULATIONS rand calls player_hand community_cards
          num_players (0, 0, 0) = Inr (wins, 0, losses)
     \<and> 0 \<le> wins \<and> 0 \<le> losses \<and> (0::int) = 0 \<and> wins + losses + 0 = 10000
     \<and> wins * 100 \<le> 1000000
     \<and> calculate_win_probability rand calls player_hand community_cards num_players
         = Inr ((100 * wins) div (wins + losses + 0))
     \<and> 0 \<le> (100 * wins) div (wins + losses + 0)
     \<and> (100 * wins) div (wins + losses + 0) \<le> 100"
    using r by simp
  then show ?thesis by (intro exI)
qed

theorem calculate_win_probability_bounds_witness:
  "valid_cards [\<lparr>rank = 12, suit = 3\<rparr>, \<lparr>rank = 12, suit = 0\<rparr>] []
   \<and> (2::nat) \<le> 2 \<and> (2::nat) \<le> 6
   \<and> (\<exists>p. calculate_win_probability (\<lambda>n. 0) 0 [\<lparr>rank = 12, suit = 3\<rparr>, \<lparr>rank = 12, suit = 0\<rparr>] [] 2 = Inr p
        \<and> 0 \<le> p \<and> p \<le> 100)"
proof -
  have v: "valid_cards [\<lparr>rank = 12, suit = 3\<rparr>, \<lparr>rank = 12, suit = 0\<rparr>] []"
    by (simp add: valid_cards_def valid_card_def HAND_SIZE_def NUM_RANKS_def NUM_SUITS_def)
  have a: "(2::nat) \<le> 2" and b: "(2::nat) \<le> 6" by simp_all
  from calculate_win_probability_bounds [OF v a b, of "\<lambda>n. 0" 0] v show ?thesis by auto
qed

end
